theory Spec2Isabelle
  imports Complex_Main "HOL-Library.Word"
begin

section \<open>Data model\<close>

text \<open>
  The pixel data of an \<open>ImageData\<close> is a \<open>Uint8ClampedArray\<close>: a flat sequence of
  bytes, four per pixel in the order R, G, B, A. A JavaScript number is an IEEE 754
  double; the section on numbers says how its arithmetic is written.
\<close>

type_synonym byte = "8 word"
type_synonym bytes = "byte list"

text \<open>
  The failures of the two source modules, by kind. The source raises \<open>Error\<close> objects
  that differ only in their message; each constructor stands for the messages named
  at the place that raises it.
\<close>

datatype error =
    Empty                        \<comment> \<open>"No image file provided." / "No file selected." / "No file provided for validation."\<close>
  | NotAFile                     \<comment> \<open>"Invalid input: Expected a File object."\<close>
  | InvalidType                  \<comment> \<open>"Invalid file type: ..."\<close>
  | FileTooLarge                 \<comment> \<open>"File is too large (...)"\<close>
  | ReadError                    \<comment> \<open>"Failed to read the image file." / "Failed to read image data from FileReader."\<close>
  | DecodeError                  \<comment> \<open>"Failed to load the image. The file might be corrupt or an unsupported format."\<close>
  | ZeroDimension                \<comment> \<open>"Image has zero dimensions. ..."\<close>
  | DimensionTooLarge            \<comment> \<open>"Image dimension (...) exceeds the maximum allowed side of ..."\<close>
  | TooManyPixels                \<comment> \<open>"Image resolution (...) is too high for browser processing. ..."\<close>
  | ContextUnavailable           \<comment> \<open>"Failed to get canvas 2D context. ..."\<close>
  | ProcessingTimeout            \<comment> \<open>"Image processing took too long and was aborted ..."\<close>
  | CanvasProcessingError error  \<comment> \<open>"Canvas processing error: " followed by the message of the error caught\<close>
  | RangeError                   \<comment> \<open>raised by \<open>TypedArray.set\<close> when the source is longer than the target\<close>
  | TypeError                    \<comment> \<open>raised by \<open>FileReader.readAsDataURL\<close> when its argument is not a \<open>Blob\<close>\<close>

section \<open>File validation\<close>

text \<open>
  A \<open>File\<close> carries its declared media type, its byte length and its content.
  The argument of a validator is a JavaScript value: absent (\<open>null\<close> or
  \<open>undefined\<close>), some object that is not a \<open>File\<close>, or a \<open>File\<close>. Of an object
  that is not a \<open>File\<close> the validators read the properties \<open>type\<close> and \<open>size\<close>,
  each of which it may lack.
\<close>

record image_file =
  mime :: string
  size_bytes :: nat
  payload :: bytes

datatype candidate = Absent | NotFile "string option" "nat option" | IsFile image_file

record validate_options =
  maxFileSize :: nat
  allowedTypes :: "string list"

definition MAX_FILE_SIZE_BYTES :: nat where
  "MAX_FILE_SIZE_BYTES = 15 * 1024 * 1024"

definition VALID_IMAGE_TYPES :: "string list" where
  "VALID_IMAGE_TYPES = [''image/jpeg'', ''image/png'', ''image/webp'', ''image/jpg'']"

definition default_validate_options :: validate_options where
  "default_validate_options =
     \<lparr>maxFileSize = MAX_FILE_SIZE_BYTES, allowedTypes = VALID_IMAGE_TYPES\<rparr>"

text \<open>\<open>validateImageFile\<close> of the utility module: presence, \<open>instanceof File\<close>, type, size.\<close>

fun validateImageFile :: "candidate \<Rightarrow> validate_options \<Rightarrow> error + bool" where
  "validateImageFile Absent opts = Inl Empty"
| "validateImageFile (NotFile ty sz) opts = Inl NotAFile"
| "validateImageFile (IsFile f) opts =
     (if mime f \<notin> set (allowedTypes opts) then Inl InvalidType
      else if size_bytes f > maxFileSize opts then Inl FileTooLarge
      else Inr True)"

text \<open>
  \<open>validateImage\<close> of the service module: the list of types and the 20MB limit are
  local constants, and there is no \<open>instanceof\<close> test, so that an object that is not
  a \<open>File\<close> is judged by its properties: a \<open>type\<close> that is missing is \<open>undefined\<close>,
  which the list does not include, and a \<open>size\<close> that is missing is \<open>undefined\<close>, which
  is not greater than the limit.
\<close>

definition validTypes :: "string list" where
  "validTypes = [''image/jpeg'', ''image/png'', ''image/webp'', ''image/jpg'']"

definition maxSizeInBytes :: nat where
  "maxSizeInBytes = 20 * 1024 * 1024"

fun validateImage :: "candidate \<Rightarrow> error + bool" where
  "validateImage Absent = Inl Empty"
| "validateImage (NotFile ty sz) =
     (case ty of
        None \<Rightarrow> Inl InvalidType
      | Some t \<Rightarrow>
          if t \<notin> set validTypes then Inl InvalidType
          else (case sz of
                  None \<Rightarrow> Inr True
                | Some n \<Rightarrow> if n > maxSizeInBytes then Inl FileTooLarge else Inr True))"
| "validateImage (IsFile f) =
     (if mime f \<notin> set validTypes then Inl InvalidType
      else if size_bytes f > maxSizeInBytes then Inl FileTooLarge
      else Inr True)"

section \<open>Dimension gate of \<open>removeBackground\<close>\<close>

definition MAX_DIMENSION_SIDE :: nat where
  "MAX_DIMENSION_SIDE = 8000"

definition MAX_TOTAL_IMAGE_PIXELS :: nat where
  "MAX_TOTAL_IMAGE_PIXELS = 30000000"

text \<open>
  The three tests at the head of \<open>img.onload\<close>, in the order of the source;
  \<open>None\<close> when the image passes.
\<close>

definition dimensionCheck :: "nat \<Rightarrow> nat \<Rightarrow> error option" where
  "dimensionCheck naturalWidth naturalHeight =
     (if naturalWidth = 0 \<or> naturalHeight = 0 then Some ZeroDimension
      else if naturalWidth > MAX_DIMENSION_SIDE \<or> naturalHeight > MAX_DIMENSION_SIDE
        then Some DimensionTooLarge
      else if naturalWidth * naturalHeight > MAX_TOTAL_IMAGE_PIXELS then Some TooManyPixels
      else None)"

section \<open>Numbers and typed-array access\<close>

text \<open>
  A finite double is modelled as the real number it denotes, and an operation that can
  round is the exact operation followed by \<open>fl\<close>, the rounding of a real to the
  nearest double, a tie going to the even significand. A double has 53 significant
  bits: for a magnitude from \<open>2 powr e\<close> up to \<open>2 powr (e + 1)\<close> the doubles are the
  multiples of \<open>2 powr (e - 52)\<close>. The exponent is not bounded in the model: overflow to
  \<open>Infinity\<close> and the subnormal numbers, which take magnitudes above \<open>1.7e308\<close> or
  below \<open>2.3e-308\<close>, are left out. Bytes, lengths and sides stay far from both; a
  theorem about a number that comes from outside, a target colour, bounds it.
\<close>

definition round_half_even :: "real \<Rightarrow> int" where
  "round_half_even y =
     (let f = \<lfloor>y\<rfloor> in
      if y - real_of_int f < 1 / 2 then f
      else if y - real_of_int f > 1 / 2 then f + 1
      else if even f then f else f + 1)"

definition fl :: "real \<Rightarrow> real" where
  "fl x = (if x = 0 then 0
           else (let e = \<lfloor>log 2 \<bar>x\<bar>\<rfloor>; ulp = 2 powr (real_of_int e - 52)
                 in ulp * real_of_int (round_half_even (x / ulp))))"

text \<open>
  The operators \<open>+\<close>, \<open>-\<close>, \<open>*\<close>, \<open>/\<close> and \<open>Math.sqrt\<close> on doubles are correctly
  rounded, and so is \<open>Math.pow(x, 2)\<close>, the square. A decimal literal such as \<open>0.299\<close>
  is the double \<open>fl 0.299\<close>. The argument of \<open>js_sqrt\<close> is a sum of squares wherever it
  is used. Sums and products of bytes and of whole numbers of that size (the sample sums,
  the convolution, the offsets into the data) are whole numbers far below \<open>2 ^ 53\<close>, on
  which the operators are exact; they are written without \<open>fl\<close>.
\<close>

definition js_add :: "real \<Rightarrow> real \<Rightarrow> real" where
  "js_add a b = fl (a + b)"

definition js_sub :: "real \<Rightarrow> real \<Rightarrow> real" where
  "js_sub a b = fl (a - b)"

definition js_mul :: "real \<Rightarrow> real \<Rightarrow> real" where
  "js_mul a b = fl (a * b)"

definition js_div :: "real \<Rightarrow> real \<Rightarrow> real" where
  "js_div a b = fl (a / b)"

definition js_sqrt :: "real \<Rightarrow> real" where
  "js_sqrt x = fl (sqrt x)"

definition js_pow2 :: "real \<Rightarrow> real" where
  "js_pow2 x = fl (x * x)"

text \<open>
  A value computed from pixel data is a number or \<open>NaN\<close>: reading a typed array outside
  its range yields \<open>undefined\<close>, and arithmetic on \<open>undefined\<close> yields \<open>NaN\<close>, which
  every later operation propagates and every comparison rejects. \<open>None\<close> stands for
  \<open>NaN\<close> (and for \<open>undefined\<close> read from an array).
\<close>

type_synonym number = "real option"

definition num1 :: "(real \<Rightarrow> real) \<Rightarrow> number \<Rightarrow> number" where
  "num1 f a = (case a of Some x \<Rightarrow> Some (f x) | None \<Rightarrow> None)"

definition num2 :: "(real \<Rightarrow> real \<Rightarrow> real) \<Rightarrow> number \<Rightarrow> number \<Rightarrow> number" where
  "num2 f a b = (case a of Some x \<Rightarrow> (case b of Some y \<Rightarrow> Some (f x y) | None \<Rightarrow> None)
                 | None \<Rightarrow> None)"

definition num_less :: "number \<Rightarrow> real \<Rightarrow> bool" where
  "num_less a t = (case a of Some x \<Rightarrow> x < t | None \<Rightarrow> False)"

definition num_le :: "number \<Rightarrow> real \<Rightarrow> bool" where
  "num_le a t = (case a of Some x \<Rightarrow> x \<le> t | None \<Rightarrow> False)"

text \<open>
  \<open>Math.round\<close> rounds to the nearest integer, a half towards plus infinity, and
  \<open>Math.floor\<close> is \<open>\<lfloor>_\<rfloor>\<close>; both are exact on doubles.
\<close>

definition js_round :: "real \<Rightarrow> int" where
  "js_round x = \<lfloor>x + 1 / 2\<rfloor>"

text \<open>
  \<open>data[i]\<close>: the byte as a number, \<open>undefined\<close> outside the array; \<open>rd\<close> for an
  index that is a loop counter from 0, \<open>rd_int\<close> for a computed index, which can be
  negative.
\<close>

definition byte_value :: "byte \<Rightarrow> real" where
  "byte_value v = real (unat v)"

definition rd :: "bytes \<Rightarrow> nat \<Rightarrow> number" where
  "rd data i = (if i < length data then Some (byte_value (data ! i)) else None)"

definition rd_int :: "bytes \<Rightarrow> int \<Rightarrow> number" where
  "rd_int data i = (if i < 0 then None else rd data (nat i))"

text \<open>
  Storing a number into a \<open>Uint8ClampedArray\<close>: \<open>NaN\<close> becomes 0, anything else is
  clamped to 0..255 and rounded to the nearest integer, a half to the even neighbour.
  A store outside the array is ignored, which is what \<open>xs[i := v]\<close> does.
\<close>

definition toUint8Clamp :: "number \<Rightarrow> byte" where
  "toUint8Clamp v =
     (case v of None \<Rightarrow> 0
      | Some x \<Rightarrow>
          word_of_int (round_half_even (max 0 (min 255 x))))"

type_synonym rgb = "number \<times> number \<times> number"

text \<open>\<open>calculateRgbDistance\<close>; the inline loop of \<open>removeBackground\<close> computes the same expression.\<close>

definition calculateRgbDistance :: "rgb \<Rightarrow> rgb \<Rightarrow> number" where
  "calculateRgbDistance color1 color2 =
     (case color1 of (r1, g1, b1) \<Rightarrow> case color2 of (r2, g2, b2) \<Rightarrow>
        num1 js_sqrt
          (num2 js_add (num2 js_add (num1 js_pow2 (num2 js_sub r1 r2))
                                    (num1 js_pow2 (num2 js_sub g1 g2)))
                       (num1 js_pow2 (num2 js_sub b1 b2))))"

section \<open>\<open>removeBackground\<close>: background estimate\<close>

text \<open>The eight sample points: the corners and the midpoints of the edges.\<close>

definition samplePoints :: "int \<Rightarrow> int \<Rightarrow> (int \<times> int) list" where
  "samplePoints width height =
     [(0, 0), (width - 1, 0),
      (0, height - 1), (width - 1, height - 1),
      (width div 2, 0), (width div 2, height - 1),
      (0, height div 2), (width - 1, height div 2)]"

text \<open>
  The body of the \<open>forEach\<close>: the accumulator holds \<open>rSum\<close>, \<open>gSum\<close>, \<open>bSum\<close>
  and \<open>validSamples\<close>.
\<close>

definition sampleStep ::
  "bytes \<Rightarrow> int \<Rightarrow> int \<Rightarrow> int \<times> int \<Rightarrow> number \<times> number \<times> number \<times> nat
     \<Rightarrow> number \<times> number \<times> number \<times> nat" where
  "sampleStep data width height p acc =
     (case p of (x, y) \<Rightarrow> case acc of (rSum, gSum, bSum, validSamples) \<Rightarrow>
        (let R_OFFSET = (min y (height - 1) * width + min x (width - 1)) * 4 in
         if R_OFFSET + 3 < int (length data)
         then (num2 (+) rSum (rd_int data R_OFFSET),
               num2 (+) gSum (rd_int data (R_OFFSET + 1)),
               num2 (+) bSum (rd_int data (R_OFFSET + 2)),
               validSamples + 1)
         else (rSum, gSum, bSum, validSamples)))"

text \<open>
  The estimate over a list of sample points: the sums, then the three averages with
  their fall-back to the first pixel or to 0. On the data of an image all eight samples
  resolve, and a sum of eight bytes divided by 8 is a double.
\<close>

definition averageOfSamples :: "bytes \<Rightarrow> int \<Rightarrow> int \<Rightarrow> (int \<times> int) list \<Rightarrow> rgb" where
  "averageOfSamples data width height points =
     (case fold (sampleStep data width height) points (Some 0, Some 0, Some 0, 0) of
        (rSum, gSum, bSum, validSamples) \<Rightarrow>
          (if validSamples > 0 then num1 (\<lambda>s. s / real validSamples) rSum
           else (if length data > 0 then rd data 0 else Some 0),
           if validSamples > 0 then num1 (\<lambda>s. s / real validSamples) gSum
           else (if length data > 1 then rd data 1 else Some 0),
           if validSamples > 0 then num1 (\<lambda>s. s / real validSamples) bSum
           else (if length data > 2 then rd data 2 else Some 0)))"

definition estimateBackground :: "bytes \<Rightarrow> int \<Rightarrow> int \<Rightarrow> rgb" where
  "estimateBackground data width height =
     averageOfSamples data width height (samplePoints width height)"

section \<open>\<open>removeBackground\<close>: the pixel loop\<close>

definition colorMatchTolerance :: real where
  "colorMatchTolerance = 45"

definition MAX_ITERATIONS :: real where
  "MAX_ITERATIONS = real MAX_TOTAL_IMAGE_PIXELS * 1.5"

text \<open>
  The variables the loop changes: the pixel data, the last progress value reported, the
  iteration counter, and the values handed to \<open>onProgress\<close> so far, oldest first.
\<close>

record loop_state =
  ls_data :: bytes
  lastReportedPixelProgress :: int
  iterations :: nat
  reported :: "int list"

text \<open>
  The body of the loop after the safety test, at byte offset \<open>i\<close>. In the progress test,
  \<open>i / 4\<close> is a whole number, \<open>totalPixelsToProcess\<close> is \<open>data.length / 4\<close>, and a
  remainder by 0 is \<open>NaN\<close>, never equal to 0.
\<close>

definition pixelBody :: "bool \<Rightarrow> rgb \<Rightarrow> nat \<Rightarrow> loop_state \<Rightarrow> loop_state" where
  "pixelBody onProgress avgBg i st =
     (let data = ls_data st;
          diff = calculateRgbDistance
                   (rd data i, rd data (i + 1), rd data (i + 2)) avgBg;
          st1 = (if num_less diff colorMatchTolerance
                 then st\<lparr>ls_data := data[i + 3 := 0]\<rparr> else st);
          totalPixelsToProcess = js_div (real (length data)) 4;
          step = \<lfloor>js_div totalPixelsToProcess 100\<rfloor>
      in if onProgress \<and> totalPixelsToProcess > 0 \<and> step \<noteq> 0 \<and> int (i div 4) mod step = 0
         then (let loopProgress = \<lfloor>js_mul (js_div (real (i + 4)) (real (length data))) 60\<rfloor>;
                   currentTotalProgress = 30 + loopProgress
               in if currentTotalProgress > lastReportedPixelProgress st1
                     \<and> currentTotalProgress \<le> 90
                  then st1\<lparr>reported := reported st1 @ [currentTotalProgress],
                           lastReportedPixelProgress := currentTotalProgress\<rparr>
                  else st1)
         else st1)"

text \<open>
  The loop from byte offset \<open>i\<close>. The first component of the result is the error thrown,
  if any, the second the state at that moment.
\<close>

function pixelLoop :: "bool \<Rightarrow> rgb \<Rightarrow> nat \<Rightarrow> loop_state \<Rightarrow> error option \<times> loop_state" where
  "pixelLoop onProgress avgBg i st =
     (if i < length (ls_data st) then
        (let st1 = st\<lparr>iterations := iterations st + 1\<rparr> in
         if real (iterations st1) > MAX_ITERATIONS then (Some ProcessingTimeout, st1)
         else pixelLoop onProgress avgBg (i + 4) (pixelBody onProgress avgBg i st1))
      else (None, st))"
  by pat_completeness auto
termination
  by (relation "measure (\<lambda>(onProgress, avgBg, i, st). length (ls_data st) - i)")
     (auto simp: pixelBody_def Let_def)

declare pixelLoop.simps [simp del]

section \<open>\<open>removeBackground\<close>\<close>

text \<open>
  What the browser does with the file is an input of the model: the \<open>FileReader\<close>
  fails, or yields something that is not a string, or the image fails to load, or it
  loads with its natural dimensions and the bytes that \<open>getImageData\<close> returns for it.
  An object that is not a \<open>File\<close> and passes the validation is refused by
  \<open>readAsDataURL\<close>, whose exception rejects the promise.
\<close>

datatype load_outcome =
    ReaderFailed
  | ResultNotString
  | ImageFailed
  | ImageLoaded nat nat bytes

definition emit :: "bool \<Rightarrow> int \<Rightarrow> int list \<Rightarrow> int list" where
  "emit onProgress v tr = (if onProgress then tr @ [v] else tr)"

text \<open>
  \<open>img.onload\<close>. The result pairs the values handed to \<open>onProgress\<close> with the outcome
  of the promise: the error it is rejected with, or the pixel data put back on the
  canvas, whose PNG encoding is the data URL it resolves to.
\<close>

definition imgOnload ::
  "bool \<Rightarrow> bool \<Rightarrow> nat \<Rightarrow> nat \<Rightarrow> bytes \<Rightarrow> int list \<times> (error + bytes)" where
  "imgOnload onProgress contextAvailable naturalWidth naturalHeight data =
     (case dimensionCheck naturalWidth naturalHeight of
        Some e \<Rightarrow> ([], Inl e)
      | None \<Rightarrow>
          (let p10 = emit onProgress 10 [] in
           if \<not> contextAvailable then (p10, Inl ContextUnavailable)
           else
             (let p20 = emit onProgress 20 p10;
                  avgBg = estimateBackground data (int naturalWidth) (int naturalHeight);
                  p30 = emit onProgress 30 p20
              in case pixelLoop onProgress avgBg 0
                        \<lparr>ls_data = data, lastReportedPixelProgress = 30,
                         iterations = 0, reported = p30\<rparr> of
                   (Some e, st) \<Rightarrow> (reported st, Inl (CanvasProcessingError e))
                 | (None, st) \<Rightarrow>
                     (let p95 = emit onProgress 95 (reported st);
                          p100 = emit onProgress 100 p95
                      in (p100, Inr (ls_data st))))))"

definition removeBackground ::
  "candidate \<Rightarrow> bool \<Rightarrow> load_outcome \<Rightarrow> bool \<Rightarrow> int list \<times> (error + bytes)" where
  "removeBackground imageFile onProgress loaded contextAvailable =
     (if imageFile = Absent then ([], Inl Empty)
      else case validateImage imageFile of
        Inl validationError \<Rightarrow> ([], Inl validationError)
      | Inr ok \<Rightarrow>
          (case imageFile of
             NotFile ty sz \<Rightarrow> ([], Inl TypeError)
           | _ \<Rightarrow>
               (case loaded of
                  ReaderFailed \<Rightarrow> ([], Inl ReadError)
                | ResultNotString \<Rightarrow> ([], Inl ReadError)
                | ImageFailed \<Rightarrow> ([], Inl DecodeError)
                | ImageLoaded naturalWidth naturalHeight data \<Rightarrow>
                    imgOnload onProgress contextAvailable naturalWidth naturalHeight data)))"


section \<open>Utility module: sampling and matching\<close>

text \<open>
  The body of the loop of \<open>sampleAverageColor\<close>. Inside the two tests the index is
  not negative and \<open>index + 2\<close> is inside the array, so the three reads are bytes.
\<close>

definition sampleAverageStep ::
  "bytes \<Rightarrow> int \<Rightarrow> int \<Rightarrow> real \<times> real \<Rightarrow> nat \<times> nat \<times> nat \<times> nat \<Rightarrow> nat \<times> nat \<times> nat \<times> nat" where
  "sampleAverageStep data width height p acc =
     (case p of (x, y) \<Rightarrow> case acc of (rSum, gSum, bSum, validSamples) \<Rightarrow>
        (let currentX = \<lfloor>x\<rfloor>; currentY = \<lfloor>y\<rfloor> in
         if currentX \<ge> 0 \<and> currentX < width \<and> currentY \<ge> 0 \<and> currentY < height
         then (let index = (currentY * width + currentX) * 4 in
               if index + 2 < int (length data)
               then (rSum + unat (data ! nat index),
                     gSum + unat (data ! nat (index + 1)),
                     bSum + unat (data ! nat (index + 2)),
                     validSamples + 1)
               else acc)
         else acc))"

text \<open>\<open>sampleAverageColor\<close>; \<open>None\<close> is the \<open>null\<close> it returns when no sample is valid.\<close>

definition sampleAverageColor ::
  "bytes \<Rightarrow> int \<Rightarrow> int \<Rightarrow> (real \<times> real) list \<Rightarrow> (int \<times> int \<times> int) option" where
  "sampleAverageColor data width height points =
     (case fold (sampleAverageStep data width height) points (0, 0, 0, 0) of
        (rSum, gSum, bSum, validSamples) \<Rightarrow>
          if validSamples = 0 then None
          else Some (js_round (real rSum / real validSamples),
                     js_round (real gSum / real validSamples),
                     js_round (real bSum / real validSamples)))"

record match_state =
  ms_data :: bytes
  lastReportedProgress :: int
  delivered :: "int list"

text \<open>The body of the loop of \<open>manipulateAlphaByColorMatch\<close> at byte offset \<open>i\<close>.\<close>

definition matchBody :: "rgb \<Rightarrow> real \<Rightarrow> bool \<Rightarrow> nat \<Rightarrow> match_state \<Rightarrow> match_state" where
  "matchBody targetRgb tolerance onProgress i st =
     (let data = ms_data st;
          totalPixels = js_div (real (length data)) 4;
          distance = calculateRgbDistance
                       (rd data i, rd data (i + 1), rd data (i + 2)) targetRgb;
          st1 = (if num_le distance tolerance
                 then st\<lparr>ms_data := data[i + 3 := 0]\<rparr> else st)
      in if onProgress
         then (let processedPixels = js_add (js_div (real i) 4) 1;
                   progress = \<lfloor>js_mul (js_div processedPixels totalPixels) 100\<rfloor>
               in if progress > lastReportedProgress st1
                  then st1\<lparr>delivered := delivered st1 @ [progress],
                           lastReportedProgress := progress\<rparr>
                  else st1)
         else st1)"

function matchLoop :: "rgb \<Rightarrow> real \<Rightarrow> bool \<Rightarrow> nat \<Rightarrow> match_state \<Rightarrow> match_state" where
  "matchLoop targetRgb tolerance onProgress i st =
     (if i < length (ms_data st)
      then matchLoop targetRgb tolerance onProgress (i + 4)
             (matchBody targetRgb tolerance onProgress i st)
      else st)"
  by pat_completeness auto
termination
  by (relation "measure (\<lambda>(targetRgb, tolerance, onProgress, i, st). length (ms_data st) - i)")
     (auto simp: matchBody_def Let_def)

declare matchLoop.simps [simp del]

text \<open>
  \<open>manipulateAlphaByColorMatch\<close>: the pixel data after the call and the values handed
  to \<open>onProgress\<close>, oldest first.
\<close>

definition manipulateAlphaByColorMatch ::
  "bytes \<Rightarrow> rgb \<Rightarrow> real \<Rightarrow> bool \<Rightarrow> bytes \<times> int list" where
  "manipulateAlphaByColorMatch data targetRgb tolerance onProgress =
     (let totalPixels = js_div (real (length data)) 4;
          st = matchLoop targetRgb tolerance onProgress 0
                 \<lparr>ms_data = data, lastReportedProgress = - 1, delivered = []\<rparr>
      in if onProgress \<and> lastReportedProgress st < 100 \<and> totalPixels > 0
         then (ms_data st, delivered st @ [100])
         else if onProgress \<and> totalPixels = 0
         then (ms_data st, delivered st @ [100])
         else (ms_data st, delivered st))"

section \<open>Utility module: grayscale and Sobel\<close>

text \<open>The luminosity of a pixel, rounded: \<open>Math.round(0.299 * r + 0.587 * g + 0.114 * b)\<close>.\<close>

definition grayscaleValue :: "number \<Rightarrow> number \<Rightarrow> number \<Rightarrow> number" where
  "grayscaleValue r g b =
     num1 (\<lambda>v. real_of_int (js_round v))
       (num2 js_add (num2 js_add (num1 (js_mul (fl 0.299)) r) (num1 (js_mul (fl 0.587)) g))
                    (num1 (js_mul (fl 0.114)) b))"

text \<open>The body of the loop of \<open>convertToGrayscaleInPlace\<close> at byte offset \<open>i\<close>.\<close>

definition grayscaleBody :: "nat \<Rightarrow> bytes \<Rightarrow> bytes" where
  "grayscaleBody i data =
     (let r = rd data i; g = rd data (i + 1); b = rd data (i + 2);
          grayscale = grayscaleValue r g b
      in data[i := toUint8Clamp grayscale,
              i + 1 := toUint8Clamp grayscale,
              i + 2 := toUint8Clamp grayscale])"

function grayscaleLoop :: "nat \<Rightarrow> bytes \<Rightarrow> bytes" where
  "grayscaleLoop i data =
     (if i < length data then grayscaleLoop (i + 4) (grayscaleBody i data) else data)"
  by pat_completeness auto
termination
  by (relation "measure (\<lambda>(i, data). length data - i)") (auto simp: grayscaleBody_def Let_def)

declare grayscaleLoop.simps [simp del]

definition convertToGrayscaleInPlace :: "bytes \<Rightarrow> bytes" where
  "convertToGrayscaleInPlace data = grayscaleLoop 0 data"

definition SOBEL_X_KERNEL :: "int list list" where
  "SOBEL_X_KERNEL = [[- 1, 0, 1], [- 2, 0, 2], [- 1, 0, 1]]"

definition SOBEL_Y_KERNEL :: "int list list" where
  "SOBEL_Y_KERNEL = [[- 1, - 2, - 1], [0, 0, 0], [1, 2, 1]]"

text \<open>
  \<open>_applyConvolutionKernelToGrayscale\<close>: the two loops over \<open>ky\<close> and \<open>kx\<close> from -1 to 1,
  on the red channel, with the coordinates clamped into the image.
\<close>

definition applyConvolutionKernelToGrayscale ::
  "bytes \<Rightarrow> int \<Rightarrow> int \<Rightarrow> int \<Rightarrow> int \<Rightarrow> int list list \<Rightarrow> number" where
  "applyConvolutionKernelToGrayscale sourceData x y width height kernel3x3 =
     fold (\<lambda>ky sum.
        fold (\<lambda>kx sum.
          (let pixelX = min (width - 1) (max 0 (x + kx));
               pixelY = min (height - 1) (max 0 (y + ky));
               pixelIndex = (pixelY * width + pixelX) * 4;
               pixelValue = rd_int sourceData pixelIndex;
               kernelValue = kernel3x3 ! nat (ky + 1) ! nat (kx + 1)
           in num2 (+) sum (num1 (\<lambda>v. v * real_of_int kernelValue) pixelValue)))
          [- 1, 0, 1] sum)
       [- 1, 0, 1] (Some 0)"

text \<open>The body of the two loops of \<open>applySobelFilter\<close> at the pixel \<open>(x, y)\<close>.\<close>

definition sobelPixel :: "bytes \<Rightarrow> nat \<Rightarrow> nat \<Rightarrow> nat \<Rightarrow> nat \<Rightarrow> bytes \<Rightarrow> bytes" where
  "sobelPixel grayscaleData width height y x outputData =
     (let gx = applyConvolutionKernelToGrayscale grayscaleData (int x) (int y)
                 (int width) (int height) SOBEL_X_KERNEL;
          gy = applyConvolutionKernelToGrayscale grayscaleData (int x) (int y)
                 (int width) (int height) SOBEL_Y_KERNEL;
          magnitude = num1 js_sqrt (num2 (+) (num2 (*) gx gx) (num2 (*) gy gy));
          clampedMagnitude = num1 (\<lambda>m. min 255 (max 0 (real_of_int (js_round m)))) magnitude;
          outputIndex = (y * width + x) * 4
      in outputData[outputIndex := toUint8Clamp clampedMagnitude,
                    outputIndex + 1 := toUint8Clamp clampedMagnitude,
                    outputIndex + 2 := toUint8Clamp clampedMagnitude,
                    outputIndex + 3 := 255])"

definition sobelLoops :: "bytes \<Rightarrow> nat \<Rightarrow> nat \<Rightarrow> bytes \<Rightarrow> bytes" where
  "sobelLoops grayscaleData width height outputData =
     fold (\<lambda>y out. fold (\<lambda>x out. sobelPixel grayscaleData width height y x out) [0..<width] out)
       [0..<height] outputData"

text \<open>The loop that fills the grayscale buffer with opaque black when the source has no data.\<close>

function fillOpaqueBlack :: "nat \<Rightarrow> bytes \<Rightarrow> bytes" where
  "fillOpaqueBlack i data =
     (if i < length data
      then fillOpaqueBlack (i + 4) (data[i := 0, i + 1 := 0, i + 2 := 0, i + 3 := 255])
      else data)"
  by pat_completeness auto
termination
  by (relation "measure (\<lambda>(i, data). length data - i)") auto

declare fillOpaqueBlack.simps [simp del]

text \<open>
  \<open>applySobelFilter\<close> allocates new pixel arrays and mutates them, so it runs on a store:
  the arrays by reference, and the next unused reference. A reference without an array
  stands for a source that is \<open>null\<close> or has no \<open>data\<close>. \<open>createImageData\<close> and
  \<open>new ImageData\<close> yield a zero-filled array of \<open>4 * width * height\<close> bytes.
\<close>

record store =
  arrays :: "nat \<rightharpoonup> bytes"
  next_ref :: nat

definition createImageData :: "nat \<Rightarrow> nat \<Rightarrow> store \<Rightarrow> nat \<times> store" where
  "createImageData w h s =
     (next_ref s,
      s\<lparr>arrays := (arrays s)(next_ref s \<mapsto> replicate (4 * w * h) 0),
        next_ref := next_ref s + 1\<rparr>)"

text \<open>\<open>target.set(source)\<close> on typed arrays: the copy, or the error when it does not fit.\<close>

definition typedArraySet :: "bytes \<Rightarrow> bytes \<Rightarrow> error + bytes" where
  "typedArraySet target source =
     (if length source > length target then Inl RangeError
      else Inr (source @ drop (length source) target))"

definition applySobelFilter ::
  "bool \<Rightarrow> nat \<Rightarrow> nat \<Rightarrow> nat \<Rightarrow> store \<Rightarrow> (error + nat) \<times> store" where
  "applySobelFilter contextAvailable sourceImageData width height s =
     (if \<not> contextAvailable then
        (case createImageData width height s of (fallbackImageData, s1) \<Rightarrow>
           (case arrays s1 sourceImageData of
              None \<Rightarrow> (Inr fallbackImageData, s1)
            | Some sourceData \<Rightarrow>
                (case typedArraySet (replicate (4 * width * height) 0) sourceData of
                   Inl e \<Rightarrow> (Inl e, s1)
                 | Inr copied \<Rightarrow>
                     (Inr fallbackImageData,
                      s1\<lparr>arrays := (arrays s1)(fallbackImageData \<mapsto> copied)\<rparr>))))
      else
        (case createImageData width height s of (grayscaleImageData, s1) \<Rightarrow>
           (case (case arrays s1 sourceImageData of
                    Some sourceData \<Rightarrow>
                      (case typedArraySet (replicate (4 * width * height) 0) sourceData of
                         Inl e \<Rightarrow> Inl e
                       | Inr copied \<Rightarrow> Inr (convertToGrayscaleInPlace copied))
                  | None \<Rightarrow> Inr (fillOpaqueBlack 0 (replicate (4 * width * height) 0))) of
              Inl e \<Rightarrow> (Inl e, s1)
            | Inr grayscaleData \<Rightarrow>
                (let s2 = s1\<lparr>arrays := (arrays s1)(grayscaleImageData \<mapsto> grayscaleData)\<rparr> in
                 case createImageData width height s2 of (outputImageData, s3) \<Rightarrow>
                   (Inr outputImageData,
                    s3\<lparr>arrays := (arrays s3)(outputImageData \<mapsto>
                         sobelLoops grayscaleData width height
                           (replicate (4 * width * height) 0))\<rparr>)))))"


section \<open>Resizing in \<open>ensureProcessableImage\<close>\<close>

record resize_result =
  width :: int
  height :: int
  wasResized :: bool
  originalWidth :: nat
  originalHeight :: nat

text \<open>
  Steps 2 and 3 of \<open>ensureProcessableImage\<close>, from the natural dimensions of the
  loaded image: the zero-dimension test, then the new dimensions. The quotient of the two
  sides is taken first and rounded to a double, then the product with the target side.
\<close>

definition resizeDimensions :: "nat \<Rightarrow> nat \<Rightarrow> nat \<Rightarrow> error + resize_result" where
  "resizeDimensions origW origH targetMaxSide =
     (if origW = 0 \<or> origH = 0 then Inl ZeroDimension
      else if origW > targetMaxSide \<or> origH > targetMaxSide then
        (let (newWidth, newHeight) =
               (if origW > origH
                then (int targetMaxSide,
                      js_round (js_mul (js_div (real origH) (real origW)) (real targetMaxSide)))
                else (js_round (js_mul (js_div (real origW) (real origH)) (real targetMaxSide)),
                      int targetMaxSide))
         in Inr \<lparr>width = max 1 newWidth, height = max 1 newHeight, wasResized = True,
                 originalWidth = origW, originalHeight = origH\<rparr>)
      else Inr \<lparr>width = int origW, height = int origH, wasResized = False,
                originalWidth = origW, originalHeight = origH\<rparr>)"

section \<open>Rounding to the nearest double\<close>

text \<open>
  The rounding is odd and monotone, leaves whole numbers below \<open>2 ^ 53\<close> and their
  quotients by powers of two as they are, commutes with a scaling by a power of two, and
  moves a number by at most the fraction \<open>2 powr -53\<close> of its magnitude.
\<close>

lemma rhe_cases:
  "round_half_even y = \<lfloor>y\<rfloor> \<and> y - real_of_int \<lfloor>y\<rfloor> \<le> 1 / 2
   \<or> round_half_even y = \<lfloor>y\<rfloor> + 1 \<and> y - real_of_int \<lfloor>y\<rfloor> \<ge> 1 / 2"
  by (simp add: round_half_even_def Let_def)

lemma rhe_near: "\<bar>real_of_int (round_half_even y) - y\<bar> \<le> 1 / 2"
  using rhe_cases [of y] by (elim disjE conjE) (simp; linarith)+

lemma rhe_of_int [simp]: "round_half_even (real_of_int n) = n"
  by (simp add: round_half_even_def)

lemma rhe_mono:
  assumes "y \<le> z" shows "round_half_even y \<le> round_half_even z"
proof (cases "\<lfloor>y\<rfloor> = \<lfloor>z\<rfloor>")
  case True
  then show ?thesis using assms
    by (auto simp: round_half_even_def Let_def)
next
  case False
  have "\<lfloor>y\<rfloor> \<le> \<lfloor>z\<rfloor>" using assms by (rule floor_mono)
  with False have "\<lfloor>y\<rfloor> + 1 \<le> \<lfloor>z\<rfloor>" by simp
  moreover have "round_half_even y \<le> \<lfloor>y\<rfloor> + 1" using rhe_cases [of y] by auto
  moreover have "\<lfloor>z\<rfloor> \<le> round_half_even z" using rhe_cases [of z] by auto
  ultimately show ?thesis by linarith
qed

lemma rhe_minus: "round_half_even (- y) = - round_half_even y"
proof (cases "y = real_of_int \<lfloor>y\<rfloor>")
  case True
  then obtain n where "y = real_of_int n" ..
  then have "- y = real_of_int (- n)" by simp
  then show ?thesis unfolding \<open>y = real_of_int n\<close>
    by (simp only: rhe_of_int)
next
  case False
  define f where "f = \<lfloor>y\<rfloor>"
  have fm: "\<lfloor>- y\<rfloor> = - f - 1"
    using False by (simp add: floor_minus ceiling_altdef f_def)
  have fr: "real_of_int f < y" "y < real_of_int f + 1"
    using False unfolding f_def by linarith+
  have ev: "even (- f - 1) \<longleftrightarrow> odd f" by simp
  show ?thesis
    unfolding round_half_even_def Let_def fm f_def [symmetric] ev
    using fr by (auto simp: algebra_simps)
qed


lemma fl_0 [simp]: "fl 0 = 0"
  by (simp add: fl_def)

lemma fl_minus: "fl (- x) = - fl x"
  by (simp add: fl_def Let_def rhe_minus)

lemma fl_eval:
  assumes "2 powr real_of_int e \<le> \<bar>x\<bar>" "\<bar>x\<bar> < 2 powr (real_of_int e + 1)"
  shows "fl x = 2 powr (real_of_int e - 52)
                * real_of_int (round_half_even (x / 2 powr (real_of_int e - 52)))"
proof -
  have "0 < 2 powr real_of_int e" by simp
  with assms(1) have pos: "0 < \<bar>x\<bar>" by linarith
  then have nz: "x \<noteq> 0" by simp
  have "\<lfloor>log 2 \<bar>x\<bar>\<rfloor> = e"
    using floor_log_eq_powr_iff [of "\<bar>x\<bar>" 2 e] pos assms by simp
  then show ?thesis using nz by (simp add: fl_def Let_def)
qed

lemma binade:
  assumes "x \<noteq> 0"
  shows "2 powr real_of_int \<lfloor>log 2 \<bar>x\<bar>\<rfloor> \<le> \<bar>x\<bar>"
    and "\<bar>x\<bar> < 2 powr (real_of_int \<lfloor>log 2 \<bar>x\<bar>\<rfloor> + 1)"
  using floor_log_eq_powr_iff [of "\<bar>x\<bar>" 2 "\<lfloor>log 2 \<bar>x\<bar>\<rfloor>"] assms by simp_all

lemma ulp_eq: "(2 :: real) powr (a - 52) = 2 powr a / 2 ^ 52"
proof -
  have "(2 :: real) powr (a - 52) = 2 powr a / 2 powr (52 :: real)" by (rule powr_diff)
  also have "(2 :: real) powr (52 :: real) = 2 ^ 52" by simp
  finally show ?thesis .
qed

lemma fl_error: "\<bar>fl x - x\<bar> \<le> \<bar>x\<bar> / 2 ^ 53"
proof (cases "x = 0")
  case True
  then show ?thesis by simp
next
  case False
  define e where "e = \<lfloor>log 2 \<bar>x\<bar>\<rfloor>"
  define u where "u = 2 powr (real_of_int e - 52)"
  have u: "0 < u" by (simp add: u_def)
  have fx: "fl x = u * real_of_int (round_half_even (x / u))"
    using False by (simp add: fl_def Let_def e_def u_def)
  have "fl x - x = u * (real_of_int (round_half_even (x / u)) - x / u)"
    using u by (simp add: fx field_simps)
  then have "\<bar>fl x - x\<bar> = u * \<bar>real_of_int (round_half_even (x / u)) - x / u\<bar>"
    using u by (simp add: abs_mult)
  also have "\<dots> \<le> u * (1 / 2)"
    using u rhe_near [of "x / u"] by (intro mult_left_mono) simp_all
  also have "\<dots> = 2 powr real_of_int e / 2 ^ 53"
    by (simp add: u_def ulp_eq)
  also have "\<dots> \<le> \<bar>x\<bar> / 2 ^ 53"
    using binade(1) [OF False] by (simp add: e_def divide_right_mono)
  finally show ?thesis .
qed

lemma fl_range:
  assumes "0 < x"
  shows "2 powr real_of_int \<lfloor>log 2 x\<rfloor> \<le> fl x"
    and "fl x \<le> 2 powr (real_of_int \<lfloor>log 2 x\<rfloor> + 1)"
proof -
  define e where "e = \<lfloor>log 2 x\<rfloor>"
  define u where "u = 2 powr (real_of_int e - 52)"
  have u: "0 < u" by (simp add: u_def)
  have nz: "x \<noteq> 0" using assms by simp
  have ax: "\<bar>x\<bar> = x" using assms by simp
  have fx: "fl x = u * real_of_int (round_half_even (x / u))"
    using nz by (simp add: fl_def Let_def e_def u_def ax)
  have lo: "2 powr real_of_int e \<le> x" and hi: "x < 2 powr (real_of_int e + 1)"
    using binade [OF nz] by (simp_all add: ax e_def)
  have pe: "2 powr real_of_int e = u * 2 ^ 52" by (simp add: u_def ulp_eq)
  have pe1: "2 powr (real_of_int e + 1) = u * 2 ^ 53"
    by (simp add: u_def ulp_eq powr_add)
  have "real_of_int (2 ^ 52) \<le> x / u" using lo u unfolding pe by (simp add: field_simps)
  then have "round_half_even (real_of_int (2 ^ 52)) \<le> round_half_even (x / u)" by (rule rhe_mono)
  then have a: "2 ^ 52 \<le> round_half_even (x / u)" by (simp only: rhe_of_int)
  have "x / u \<le> real_of_int (2 ^ 53)" using hi u unfolding pe1 by (simp add: field_simps)
  then have "round_half_even (x / u) \<le> round_half_even (real_of_int (2 ^ 53))" by (rule rhe_mono)
  then have b: "round_half_even (x / u) \<le> 2 ^ 53" by (simp only: rhe_of_int)
  have a': "(2 :: real) ^ 52 \<le> real_of_int (round_half_even (x / u))"
    using a by (metis of_int_le_iff of_int_numeral of_int_power)
  have b': "real_of_int (round_half_even (x / u)) \<le> (2 :: real) ^ 53"
    using b by (metis of_int_le_iff of_int_numeral of_int_power)
  show "2 powr real_of_int \<lfloor>log 2 x\<rfloor> \<le> fl x"
    unfolding e_def [symmetric] pe fx using a' u by (intro mult_left_mono) simp_all
  show "fl x \<le> 2 powr (real_of_int \<lfloor>log 2 x\<rfloor> + 1)"
    unfolding e_def [symmetric] pe1 fx using b' u by (intro mult_left_mono) simp_all
qed

lemma fl_pos: "0 < x \<Longrightarrow> 0 < fl x"
  using fl_range(1) [of x] powr_gt_zero [of 2 "real_of_int \<lfloor>log 2 x\<rfloor>"] by linarith

lemma fl_nonneg: "0 \<le> x \<Longrightarrow> 0 \<le> fl x"
  using fl_pos [of x] by (cases "x = 0") simp_all

lemma fl_mono_pos:
  assumes "0 < x" "x \<le> y" shows "fl x \<le> fl y"
proof -
  have y: "0 < y" using assms by simp
  define e where "e = \<lfloor>log 2 x\<rfloor>"
  define e' where "e' = \<lfloor>log 2 y\<rfloor>"
  have "log 2 x \<le> log 2 y" using assms by simp
  then have ee: "e \<le> e'" unfolding e_def e'_def by (rule floor_mono)
  show ?thesis
  proof (cases "e = e'")
    case True
    define u where "u = 2 powr (real_of_int e - 52)"
    have u: "0 < u" by (simp add: u_def)
    have fx: "fl x = u * real_of_int (round_half_even (x / u))"
      using assms(1) by (simp add: fl_def Let_def e_def u_def)
    have fy: "fl y = u * real_of_int (round_half_even (y / u))"
      using y True by (simp add: fl_def Let_def e'_def e_def u_def)
    have "x / u \<le> y / u" using assms(2) u by (simp add: divide_right_mono)
    then have "round_half_even (x / u) \<le> round_half_even (y / u)" by (rule rhe_mono)
    then show ?thesis unfolding fx fy using u by simp
  next
    case False
    with ee have "e + 1 \<le> e'" by simp
    then have "real_of_int e + 1 \<le> real_of_int e'" by linarith
    then have "(2 :: real) powr (real_of_int e + 1) \<le> 2 powr real_of_int e'" by simp
    moreover have "fl x \<le> 2 powr (real_of_int e + 1)"
      unfolding e_def using assms(1) by (rule fl_range(2))
    moreover have "2 powr real_of_int e' \<le> fl y"
      unfolding e'_def using y by (rule fl_range(1))
    ultimately show ?thesis by linarith
  qed
qed

lemma fl_mono:
  assumes "x \<le> y" shows "fl x \<le> fl y"
proof -
  consider "0 < x" | "x \<le> 0" "0 \<le> y" | "y < 0" by linarith
  then show ?thesis
  proof cases
    case 1
    then show ?thesis using assms by (rule fl_mono_pos)
  next
    case 2
    have "0 \<le> fl (- x)" using 2(1) by (intro fl_nonneg) simp
    then have "fl x \<le> 0" by (simp add: fl_minus)
    moreover have "0 \<le> fl y" using 2(2) by (rule fl_nonneg)
    ultimately show ?thesis by linarith
  next
    case 3
    have "fl (- y) \<le> fl (- x)" using 3 assms by (intro fl_mono_pos) simp_all
    then show ?thesis by (simp add: fl_minus)
  qed
qed

lemma fl_int_pos:
  assumes "0 < n" "n < 2 ^ 53"
  shows "fl (real_of_int n) = real_of_int n"
proof -
  define x where "x = real_of_int n"
  have x: "0 < x" "x < 2 ^ 53" using assms by (simp_all add: x_def)
  have x1: "1 \<le> x" using assms(1) by (simp add: x_def)
  define e where "e = \<lfloor>log 2 x\<rfloor>"
  define u where "u = 2 powr (real_of_int e - 52)"
  have u: "0 < u" by (simp add: u_def)
  have nz: "x \<noteq> 0" using x by simp
  have ax: "\<bar>x\<bar> = x" using x by simp
  have fx: "fl x = u * real_of_int (round_half_even (x / u))"
    using nz by (simp add: fl_def Let_def e_def u_def ax)
  have "2 powr real_of_int e \<le> x" using binade(1) [OF nz] by (simp add: ax e_def)
  also have "x < 2 powr (53 :: real)" using x(2) by simp
  finally have "(2 :: real) powr real_of_int e < 2 powr (53 :: real)" .
  then have "real_of_int e < 53"
    by (rule powr_less_cancel_iff [THEN iffD1, rotated]) simp
  then have e52: "e \<le> 52" by linarith
  have "0 \<le> log 2 x" using x1 by simp
  then have e0: "0 \<le> e" by (simp add: e_def)
  define k where "k = nat (52 - e)"
  have k: "real_of_int e - 52 = - real k" using e52 by (simp add: k_def)
  have uk: "u = 1 / 2 ^ k"
    unfolding u_def k by (simp add: powr_minus powr_realpow field_simps)
  have "x / u = real_of_int (n * 2 ^ k)" by (simp add: uk x_def)
  then have "round_half_even (x / u) = n * 2 ^ k" by (simp only: rhe_of_int)
  then have "fl x = u * real_of_int (n * 2 ^ k)" by (simp only: fx)
  also have "\<dots> = x" by (simp add: uk x_def)
  finally show ?thesis by (simp only: x_def)
qed

lemma fl_int:
  assumes "\<bar>n\<bar> < 2 ^ 53"
  shows "fl (real_of_int n) = real_of_int n"
proof -
  consider "0 < n" | "n = 0" | "n < 0" by linarith
  then show ?thesis
  proof cases
    case 1
    then show ?thesis using assms by (intro fl_int_pos) simp_all
  next
    case 2
    then show ?thesis by simp
  next
    case 3
    then have "fl (real_of_int (- n)) = real_of_int (- n)"
      using assms by (intro fl_int_pos) simp_all
    then show ?thesis by (simp add: fl_minus)
  qed
qed

lemma fl_scale:
  "fl (x * 2 powr real_of_int k) = fl x * 2 powr real_of_int k"
proof (cases "x = 0")
  case True
  then show ?thesis by simp
next
  case False
  define s where "s = (2 :: real) powr real_of_int k"
  have s: "0 < s" by (simp add: s_def)
  have nz: "x * s \<noteq> 0" using False s by simp
  have "log 2 \<bar>x * s\<bar> = log 2 \<bar>x\<bar> + log 2 s"
    using False s by (simp add: abs_mult log_mult)
  also have "log 2 s = real_of_int k" by (simp add: s_def)
  finally have "\<lfloor>log 2 \<bar>x * s\<bar>\<rfloor> = \<lfloor>log 2 \<bar>x\<bar>\<rfloor> + k" by simp
  then have e: "real_of_int \<lfloor>log 2 \<bar>x * s\<bar>\<rfloor> - 52 = (real_of_int \<lfloor>log 2 \<bar>x\<bar>\<rfloor> - 52) + real_of_int k"
    by simp
  define u where "u = 2 powr (real_of_int \<lfloor>log 2 \<bar>x\<bar>\<rfloor> - 52)"
  have u: "0 < u" by (simp add: u_def)
  have u': "2 powr (real_of_int \<lfloor>log 2 \<bar>x * s\<bar>\<rfloor> - 52) = u * s"
    unfolding e by (simp add: powr_add u_def s_def)
  have q: "x * s / (u * s) = x / u" using s by simp
  have "fl (x * s) = u * s * real_of_int (round_half_even (x * s / (u * s)))"
    using nz by (simp add: fl_def Let_def u')
  also have "\<dots> = fl x * s"
    unfolding q using False by (simp add: fl_def Let_def u_def)
  finally show ?thesis by (simp only: s_def)
qed

lemma fl_dyadic:
  assumes "\<bar>n\<bar> < 2 ^ 53"
  shows "fl (real_of_int n / 2 ^ k) = real_of_int n / 2 ^ k"
proof -
  have p: "(2 :: real) powr real_of_int (- int k) = 1 / 2 ^ k"
    by (simp add: powr_minus powr_realpow field_simps)
  have "fl (real_of_int n * 2 powr real_of_int (- int k))
        = fl (real_of_int n) * 2 powr real_of_int (- int k)" by (rule fl_scale)
  then show ?thesis unfolding p fl_int [OF assms] by simp
qed

text \<open>
  The value of \<open>fl\<close> at a given number, from its exponent and significand: when
  \<open>x * 2 ^ k\<close> lies from \<open>2 ^ 52\<close> up to \<open>2 ^ 53\<close> and nearer to the whole number \<open>m\<close>
  than to any other, \<open>fl x\<close> is \<open>m / 2 ^ k\<close>.
\<close>

lemma rhe_eval:
  assumes "real_of_int m - 1 / 2 < y" "y < real_of_int m + 1 / 2"
  shows "round_half_even y = m"
  using rhe_near [of y] assms by linarith

lemma fl_eval_down:
  assumes "2 ^ 52 \<le> \<bar>x\<bar> * 2 ^ k" "\<bar>x\<bar> * 2 ^ k < 2 ^ 53"
    and "real_of_int m - 1 / 2 < x * 2 ^ k" "x * 2 ^ k < real_of_int m + 1 / 2"
  shows "fl x = real_of_int m / 2 ^ k"
proof -
  define e where "e = 52 - int k"
  have p: "(2 :: real) powr real_of_int e = 2 ^ 52 / 2 ^ k"
    by (simp add: e_def powr_diff powr_realpow)
  have p1: "(2 :: real) powr (real_of_int e + 1) = 2 ^ 53 / 2 ^ k"
    by (simp add: e_def powr_diff powr_add powr_realpow)
  have u: "(2 :: real) powr (real_of_int e - 52) = 1 / 2 ^ k"
    by (simp add: e_def powr_minus powr_realpow field_simps)
  have a: "2 powr real_of_int e \<le> \<bar>x\<bar>" unfolding p using assms(1) by (simp add: field_simps)
  have b: "\<bar>x\<bar> < 2 powr (real_of_int e + 1)" unfolding p1 using assms(2) by (simp add: field_simps)
  have "round_half_even (x * 2 ^ k) = m" using assms(3,4) by (rule rhe_eval)
  then show ?thesis unfolding fl_eval [OF a b] u by simp
qed

lemma fl_1 [simp]: "fl 1 = 1"
  using fl_int [of 1] by simp

lemma fl_numeral:
  "numeral n < (9007199254740992 :: int) \<Longrightarrow> fl (numeral n) = numeral n"
  using fl_int [of "numeral n"] by simp

lemma fl_neg_numeral:
  "numeral n < (9007199254740992 :: int) \<Longrightarrow> fl (- numeral n) = - numeral n"
  using fl_numeral [of n] by (simp add: fl_minus)

lemma fl_nat:
  assumes "n < 2 ^ 53" shows "fl (real n) = real n"
proof -
  have "int n < 2 ^ 53" using assms by (metis of_nat_less_iff of_nat_numeral of_nat_power)
  then have "fl (real_of_int (int n)) = real_of_int (int n)" by (intro fl_int) simp
  then show ?thesis by simp
qed

lemma fl_le_int:
  assumes "x \<le> real_of_int n" "\<bar>n\<bar> < 2 ^ 53" shows "fl x \<le> real_of_int n"
  using fl_mono [OF assms(1)] fl_int [OF assms(2)] by simp

lemma fl_ge_int:
  assumes "real_of_int n \<le> x" "\<bar>n\<bar> < 2 ^ 53" shows "real_of_int n \<le> fl x"
  using fl_mono [OF assms(1)] fl_int [OF assms(2)] by simp

lemma fl_abs_error:
  assumes "\<bar>x\<bar> \<le> B" shows "\<bar>fl x - x\<bar> \<le> B / 2 ^ 53"
proof -
  have "\<bar>x\<bar> / 2 ^ 53 \<le> B / 2 ^ 53" using assms by (simp add: divide_right_mono)
  with fl_error [of x] show ?thesis by linarith
qed

section \<open>Validation\<close>

text \<open>
  Claim C4. Both validators reject an absent candidate as empty, a file whose declared
  media type is outside the allowed set as an invalid type, and a file of an allowed
  type whose byte length exceeds the maximum as too large; a file that is too large is
  rejected in any case, under the kind of the first test that fires. A file of an
  allowed type within the size limit passes. The outcome does not depend on the content
  of the file, so no pixel dimension is inspected. The allowed set of the utility
  module defaults to JPEG, PNG, WebP and the \<open>image/jpg\<close> alias, which is also the
  fixed set of the service module; the size limits are 15MB by default and 20MB.
\<close>

theorem validation_outcomes:
  "validateImageFile Absent opts = Inl Empty
   \<and> validateImage Absent = Inl Empty
   \<and> removeBackground Absent onProgress loaded ctx = ([], Inl Empty)
   \<and> (mime f \<notin> set (allowedTypes opts) \<longrightarrow> validateImageFile (IsFile f) opts = Inl InvalidType)
   \<and> (mime f \<notin> {''image/jpeg'', ''image/png'', ''image/webp'', ''image/jpg''}
        \<longrightarrow> validateImage (IsFile f) = Inl InvalidType)
   \<and> (mime f \<in> set (allowedTypes opts) \<and> size_bytes f > maxFileSize opts
        \<longrightarrow> validateImageFile (IsFile f) opts = Inl FileTooLarge)
   \<and> (mime f \<in> {''image/jpeg'', ''image/png'', ''image/webp'', ''image/jpg''}
        \<and> size_bytes f > 20 * 1024 * 1024
        \<longrightarrow> validateImage (IsFile f) = Inl FileTooLarge)
   \<and> (size_bytes f > maxFileSize opts
        \<longrightarrow> validateImageFile (IsFile f) opts \<in> {Inl InvalidType, Inl FileTooLarge})
   \<and> (size_bytes f > 20 * 1024 * 1024
        \<longrightarrow> validateImage (IsFile f) \<in> {Inl InvalidType, Inl FileTooLarge})
   \<and> (mime f \<in> set (allowedTypes opts) \<and> size_bytes f \<le> maxFileSize opts
        \<longrightarrow> validateImageFile (IsFile f) opts = Inr True)
   \<and> (mime f \<in> {''image/jpeg'', ''image/png'', ''image/webp'', ''image/jpg''}
        \<and> size_bytes f \<le> 20 * 1024 * 1024
        \<longrightarrow> validateImage (IsFile f) = Inr True)
   \<and> validateImageFile (IsFile (f\<lparr>payload := p\<rparr>)) opts = validateImageFile (IsFile f) opts
   \<and> validateImage (IsFile (f\<lparr>payload := p\<rparr>)) = validateImage (IsFile f)
   \<and> set (allowedTypes default_validate_options)
       = {''image/jpeg'', ''image/png'', ''image/webp'', ''image/jpg''}
   \<and> maxFileSize default_validate_options = 15 * 1024 * 1024"
  by (simp add: validTypes_def maxSizeInBytes_def default_validate_options_def
        VALID_IMAGE_TYPES_def MAX_FILE_SIZE_BYTES_def removeBackground_def insert_commute)

theorem validation_outcomes_witness:
  "validateImageFile (IsFile \<lparr>mime = ''image/gif'', size_bytes = 10, payload = []\<rparr>)
     default_validate_options = Inl InvalidType
   \<and> validateImage (IsFile \<lparr>mime = ''image/gif'', size_bytes = 10, payload = []\<rparr>) = Inl InvalidType
   \<and> validateImageFile (IsFile \<lparr>mime = ''image/png'', size_bytes = 16000000, payload = []\<rparr>)
     default_validate_options = Inl FileTooLarge
   \<and> validateImage (IsFile \<lparr>mime = ''image/png'', size_bytes = 16000000, payload = []\<rparr>) = Inr True
   \<and> validateImage (IsFile \<lparr>mime = ''image/jpg'', size_bytes = 21000000, payload = []\<rparr>) = Inl FileTooLarge
   \<and> validateImageFile (IsFile \<lparr>mime = ''image/webp'', size_bytes = 10, payload = []\<rparr>)
     default_validate_options = Inr True"
  using validation_outcomes [of default_validate_options _ _ _
          "\<lparr>mime = ''image/gif'', size_bytes = 10, payload = []\<rparr>"]
        validation_outcomes [of default_validate_options _ _ _
          "\<lparr>mime = ''image/png'', size_bytes = 16000000, payload = []\<rparr>"]
        validation_outcomes [of default_validate_options _ _ _
          "\<lparr>mime = ''image/jpg'', size_bytes = 21000000, payload = []\<rparr>"]
        validation_outcomes [of default_validate_options _ _ _
          "\<lparr>mime = ''image/webp'', size_bytes = 10, payload = []\<rparr>"]
  by (simp add: default_validate_options_def VALID_IMAGE_TYPES_def MAX_FILE_SIZE_BYTES_def)

section \<open>Dimension gate\<close>

text \<open>
  Claim C3. The tests of the gate run in the order zero dimension, side too large, too
  many pixels, and the first that fires names the error: a zero width or height is a
  zero-dimension error, a side above 8000 is a dimension-too-large error, and a product
  above 30,000,000 is a too-many-pixels error. Every image that meets one of the three
  conditions is rejected. The rejection happens with no progress value delivered and
  whatever the pixel data is: neither the sampling nor the pixel loop has run.
\<close>

theorem dimension_gate_rejects:
  "(w = 0 \<or> h = 0 \<longrightarrow> dimensionCheck w h = Some ZeroDimension)
   \<and> (w \<noteq> 0 \<and> h \<noteq> 0 \<and> max w h > 8000 \<longrightarrow> dimensionCheck w h = Some DimensionTooLarge)
   \<and> (w \<noteq> 0 \<and> h \<noteq> 0 \<and> max w h \<le> 8000 \<and> w * h > 30000000
        \<longrightarrow> dimensionCheck w h = Some TooManyPixels)
   \<and> (w = 0 \<or> h = 0 \<or> max w h > 8000 \<or> w * h > 30000000 \<longrightarrow> dimensionCheck w h \<noteq> None)
   \<and> (dimensionCheck w h = Some e
        \<longrightarrow> imgOnload onProgress ctx w h data = ([], Inl e)
          \<and> (validateImage (IsFile f) = Inr True
               \<longrightarrow> removeBackground (IsFile f) onProgress (ImageLoaded w h data) ctx = ([], Inl e)))"
  by (auto simp: dimensionCheck_def imgOnload_def removeBackground_def
        MAX_DIMENSION_SIDE_def MAX_TOTAL_IMAGE_PIXELS_def)

theorem dimension_gate_rejects_witness:
  "dimensionCheck 9000 9000 = Some DimensionTooLarge
   \<and> removeBackground (IsFile \<lparr>mime = ''image/png'', size_bytes = 10, payload = []\<rparr>) True
        (ImageLoaded 9000 9000 (replicate (4 * 9000 * 9000) 255)) True
      = ([], Inl DimensionTooLarge)
   \<and> dimensionCheck 0 5 = Some ZeroDimension
   \<and> dimensionCheck 6000 6000 = Some TooManyPixels"
  using dimension_gate_rejects [of 9000 9000 DimensionTooLarge True True
          "replicate (4 * 9000 * 9000) 255"
          "\<lparr>mime = ''image/png'', size_bytes = 10, payload = []\<rparr>"]
        dimension_gate_rejects [of 0 5] dimension_gate_rejects [of 6000 6000]
  by (simp add: validTypes_def maxSizeInBytes_def)

section \<open>Resizing\<close>

lemma js_round_le:
  assumes "x \<le> real_of_int n" shows "js_round x \<le> n"
proof -
  have "x + 1 / 2 < real_of_int (n + 1)" using assms by simp
  then have "\<lfloor>x + 1 / 2\<rfloor> < n + 1" by (simp only: floor_less_iff)
  then show ?thesis by (simp add: js_round_def)
qed

lemma js_round_near: "\<bar>real_of_int (js_round x) - x\<bar> \<le> 1 / 2"
  unfolding js_round_def by linarith

text \<open>
  The scaled side as the source computes it, for sides \<open>a \<le> b\<close> and a target below
  \<open>2 ^ 32\<close>: the two roundings move it by less than a millionth of a pixel.
\<close>

lemma scaled_side:
  assumes "0 < a" "a \<le> b" "t < 2 ^ 32"
  shows "js_mul (js_div (real a) (real b)) (real t) \<le> real t"
    and "0 \<le> js_mul (js_div (real a) (real b)) (real t)"
    and "\<bar>js_mul (js_div (real a) (real b)) (real t) - real a * real t / real b\<bar> \<le> 1 / 2 ^ 20"
proof -
  define q where "q = real a / real b"
  define q' where "q' = fl q"
  have b: "0 < real b" using assms(1,2) by simp
  have q: "0 < q" "q \<le> 1" using assms(1,2) b by (simp_all add: q_def)
  have "fl q \<le> real_of_int 1" using q(2) by (intro fl_le_int) simp_all
  then have q'1: "q' \<le> 1" by (simp add: q'_def)
  have q'0: "0 \<le> q'" unfolding q'_def using q(1) by (intro fl_nonneg) simp
  have t: "0 \<le> real t" by simp
  have t32: "real t \<le> 2 ^ 32"
  proof -
    have "real t < real (2 ^ 32)" using assms(3) by (simp only: of_nat_less_iff)
    then show ?thesis by simp
  qed
  have tt: "t < 2 ^ 53" using assms(3) by (rule less_trans) simp
  have "q' * real t \<le> 1 * real t" using q'1 t by (rule mult_right_mono)
  then have le: "q' * real t \<le> real t" by simp
  have "fl (q' * real t) \<le> fl (real t)" using le by (rule fl_mono)
  then have up: "fl (q' * real t) \<le> real t" by (simp only: fl_nat [OF tt])
  have lo: "0 \<le> fl (q' * real t)" using q'0 t by (intro fl_nonneg) simp
  have e1: "\<bar>q' - q\<bar> \<le> 1 / 2 ^ 53"
    unfolding q'_def using q by (intro fl_abs_error) simp
  have "\<bar>q' * real t - q * real t\<bar> = \<bar>q' - q\<bar> * real t"
    by (simp add: abs_mult left_diff_distrib [symmetric])
  also have "\<dots> \<le> 1 / 2 ^ 53 * 2 ^ 32"
    using e1 t32 t by (intro mult_mono) simp_all
  finally have e2: "\<bar>q' * real t - q * real t\<bar> \<le> 1 / 2 ^ 53 * 2 ^ 32" .
  have "\<bar>q' * real t\<bar> \<le> 2 ^ 32" using le t32 q'0 t by simp
  then have e3: "\<bar>fl (q' * real t) - q' * real t\<bar> \<le> 2 ^ 32 / 2 ^ 53" by (rule fl_abs_error)
  have e2': "\<bar>q' * real t - q * real t\<bar> \<le> 1 / 2097152" using e2 by simp
  have e3': "\<bar>fl (q' * real t) - q' * real t\<bar> \<le> 1 / 2097152" using e3 by simp
  have "\<bar>fl (q' * real t) - q * real t\<bar> \<le> 1 / 1048576" using e2' e3' by linarith
  then have e: "\<bar>fl (q' * real t) - q * real t\<bar> \<le> 1 / 2 ^ 20" by simp
  have qt: "q * real t = real a * real t / real b" by (simp add: q_def)
  show "js_mul (js_div (real a) (real b)) (real t) \<le> real t"
    using up by (simp add: js_mul_def js_div_def q'_def q_def)
  show "0 \<le> js_mul (js_div (real a) (real b)) (real t)"
    using lo by (simp add: js_mul_def js_div_def q'_def q_def)
  show "\<bar>js_mul (js_div (real a) (real b)) (real t) - real a * real t / real b\<bar> \<le> 1 / 2 ^ 20"
    using e unfolding qt by (simp add: js_mul_def js_div_def q'_def q_def)
qed

lemma new_side:
  assumes "0 < a" "a \<le> b" "t < 2 ^ 32"
  shows "js_round (js_mul (js_div (real a) (real b)) (real t)) \<le> int t"
    and "\<bar>real_of_int (max 1 (js_round (js_mul (js_div (real a) (real b)) (real t))))
          - real a * real t / real b\<bar> \<le> 1"
proof -
  define y where "y = js_mul (js_div (real a) (real b)) (real t)"
  define E where "E = real a * real t / real b"
  note s = scaled_side [OF assms, folded y_def E_def]
  have E0: "0 \<le> E" by (simp add: E_def)
  have "(1 :: real) / 2 ^ 20 \<le> 1 / 2" by simp
  with s(3) have s3: "\<bar>y - E\<bar> \<le> 1 / 2" by linarith
  have "y \<le> real_of_int (int t)" using s(1) by simp
  then show "js_round (js_mul (js_div (real a) (real b)) (real t)) \<le> int t"
    unfolding y_def by (rule js_round_le)
  have near: "\<bar>real_of_int (max 1 (js_round y)) - E\<bar> \<le> 1"
  proof (cases "1 \<le> js_round y")
    case True
    then have m: "max 1 (js_round y) = js_round y" by simp
    show ?thesis unfolding m using js_round_near [of y] s3 by linarith
  next
    case False
    then have m: "max 1 (js_round y) = 1" by simp
    from False have "js_round y \<le> 0" by simp
    then have "y + 1 / 2 < 1" unfolding js_round_def by linarith
    with E0 s3 show ?thesis unfolding m by linarith
  qed
  then show "\<bar>real_of_int (max 1 (js_round (js_mul (js_div (real a) (real b)) (real t))))
          - real a * real t / real b\<bar> \<le> 1"
    by (simp only: y_def E_def)
qed

text \<open>
  Claim C5, amended. For an image with non-zero dimensions and a target side of at least
  1, all three below \<open>2 ^ 32\<close> as the sides of images and canvases are: no resize, with
  the dimensions unchanged, when both sides are within the target; otherwise the longer side becomes the target
  and the other side is \<open>Math.round((other / longer) * target)\<close> as doubles compute it, the
  quotient first, raised to 1 when it rounds to 0. Both new sides are then within the
  target and the other side is within one pixel of the exact scaled value.
\<close>

theorem resize_within_target:
  assumes "0 < w" and "0 < h" and "1 \<le> t"
    and "w < 2 ^ 32" and "h < 2 ^ 32" and "t < 2 ^ 32"
  shows "(w \<le> t \<and> h \<le> t \<longrightarrow>
            resizeDimensions w h t = Inr \<lparr>width = int w, height = int h, wasResized = False,
                                          originalWidth = w, originalHeight = h\<rparr>)
       \<and> ((w > t \<or> h > t) \<and> w > h \<longrightarrow>
            resizeDimensions w h t =
              Inr \<lparr>width = int t,
                   height = max 1 (js_round (js_mul (js_div (real h) (real w)) (real t))),
                   wasResized = True, originalWidth = w, originalHeight = h\<rparr>
            \<and> max 1 (js_round (js_mul (js_div (real h) (real w)) (real t))) \<le> int t
            \<and> \<bar>real_of_int (max 1 (js_round (js_mul (js_div (real h) (real w)) (real t))))
                 - real h * real t / real w\<bar> \<le> 1)
       \<and> ((w > t \<or> h > t) \<and> w \<le> h \<longrightarrow>
            resizeDimensions w h t =
              Inr \<lparr>width = max 1 (js_round (js_mul (js_div (real w) (real h)) (real t))),
                   height = int t,
                   wasResized = True, originalWidth = w, originalHeight = h\<rparr>
            \<and> max 1 (js_round (js_mul (js_div (real w) (real h)) (real t))) \<le> int t
            \<and> \<bar>real_of_int (max 1 (js_round (js_mul (js_div (real w) (real h)) (real t))))
                 - real w * real t / real h\<bar> \<le> 1)"
proof -
  have hw: "js_round (js_mul (js_div (real h) (real w)) (real t)) \<le> int t"
    "\<bar>real_of_int (max 1 (js_round (js_mul (js_div (real h) (real w)) (real t))))
          - real h * real t / real w\<bar> \<le> 1" if "h < w"
    using new_side [OF assms(2) _ assms(6), of w] that by simp_all
  have wh: "js_round (js_mul (js_div (real w) (real h)) (real t)) \<le> int t"
    "\<bar>real_of_int (max 1 (js_round (js_mul (js_div (real w) (real h)) (real t))))
          - real w * real t / real h\<bar> \<le> 1" if "w \<le> h"
    using new_side [OF assms(1) that assms(6)] by simp_all
  show ?thesis
    using assms(1-3) hw wh by (auto simp: resizeDimensions_def)
qed

theorem resize_within_target_witness:
  "resizeDimensions 8000 2000 4000 =
     Inr \<lparr>width = 4000, height = 1000, wasResized = True,
          originalWidth = 8000, originalHeight = 2000\<rparr>
   \<and> resizeDimensions 300 200 4000 =
     Inr \<lparr>width = 300, height = 200, wasResized = False,
          originalWidth = 300, originalHeight = 200\<rparr>
   \<and> resizeDimensions 1 16384 4096 =
     Inr \<lparr>width = 1, height = 4096, wasResized = True,
          originalWidth = 1, originalHeight = 16384\<rparr>"
proof -
  have q1: "fl (1 / 4) = 1 / 4" using fl_dyadic [of 1 2] by simp
  have q2: "fl (1 / 16384) = 1 / 16384" using fl_dyadic [of 1 14] by simp
  show ?thesis
    using resize_within_target [of 8000 2000 4000] resize_within_target [of 300 200 4000]
          resize_within_target [of 1 16384 4096]
    by (simp add: js_round_def js_mul_def js_div_def q1 q2 fl_numeral)
qed

text \<open>
  With a target side of 0 the floor of one pixel wins over the target: the image is
  resized to 1 by 1, which exceeds the target. And an image of 4800 by 603 resized to
  the default target of 4000 gets the height 502: the quotient \<open>603 / 4800\<close> is rounded
  down to a double, and its product with 4000 lies just below 502.5, whereas
  \<open>603 * 4000 / 4800\<close> is 502.5 and rounds to 503.
\<close>

theorem resize_counterexample:
  "resizeDimensions 5 5 0 =
     Inr \<lparr>width = 1, height = 1, wasResized = True, originalWidth = 5, originalHeight = 5\<rparr>
   \<and> \<not> max (1::int) 1 \<le> int 0
   \<and> resizeDimensions 4800 603 4000 =
     Inr \<lparr>width = 4000, height = 502, wasResized = True,
          originalWidth = 4800, originalHeight = 603\<rparr>
   \<and> js_round (603 * 4000 / 4800) = 503"
proof -
  have a: "fl (603 / 4800) = 4526117625507348 / 2 ^ 55"
    using fl_eval_down [of "603 / 4800" 55 4526117625507348] by simp
  have b: "fl (4526117625507348 / 2 ^ 55 * 4000) = 8840073487319039 / 2 ^ 44"
    using fl_eval_down [of "4526117625507348 / 2 ^ 55 * 4000" 44 8840073487319039] by simp
  have c: "js_mul (js_div 603 4800) 4000 = 8840073487319039 / 2 ^ 44"
    unfolding js_mul_def js_div_def a b ..
  have e: "resizeDimensions 4800 603 4000 =
     Inr \<lparr>width = 4000, height = 502, wasResized = True,
          originalWidth = 4800, originalHeight = 603\<rparr>"
    unfolding resizeDimensions_def by (simp add: c js_round_def)
  have f: "resizeDimensions 5 5 0 =
     Inr \<lparr>width = 1, height = 1, wasResized = True, originalWidth = 5, originalHeight = 5\<rparr>"
    by (simp add: resizeDimensions_def js_round_def js_mul_def js_div_def)
  show ?thesis using e f by (simp add: js_round_def)
qed

section \<open>Clamped stores and the grayscale loop\<close>

lemma byte_value_bounds: "0 \<le> byte_value w \<and> byte_value w \<le> 255"
proof -
  have "unat w < 2 ^ LENGTH(8)" by (rule unsigned_less)
  then have "unat w \<le> 255" by simp
  then have "real (unat w) \<le> 255" by linarith
  then show ?thesis by (simp del: of_nat_unat add: byte_value_def)
qed

lemma toUint8Clamp_int:
  assumes "0 \<le> n" "n \<le> 255"
  shows "toUint8Clamp (Some (real_of_int n)) = word_of_int n"
proof -
  have c: "max 0 (min 255 (real_of_int n)) = real_of_int n"
    using assms by (simp add: max_def min_def)
  show ?thesis unfolding toUint8Clamp_def by (simp add: c)
qed

lemma byte_value_int: "byte_value w = real_of_int (int (unat w))"
  by (simp del: of_nat_unat add: byte_value_def)

lemma toUint8Clamp_byte_value: "toUint8Clamp (Some (byte_value w)) = w"
proof -
  have "unat w < 2 ^ LENGTH(8)" by (rule unsigned_less)
  then have "unat w \<le> 255" by simp
  then have "int (unat w) \<le> int 255" by (simp only: of_nat_le_iff)
  then have le: "int (unat w) \<le> 255" by (simp del: of_nat_unat)
  have ge: "0 \<le> int (unat w)" by (simp del: of_nat_unat)
  have "toUint8Clamp (Some (real_of_int (int (unat w)))) = word_of_int (int (unat w))"
    using ge le by (rule toUint8Clamp_int)
  then show ?thesis unfolding byte_value_int by simp
qed

text \<open>
  One product of the luminosity: a coefficient \<open>c\<close> from 0 to 1, rounded to a double,
  times a channel value from 0 to 255, rounded again.
\<close>

lemma weighted_channel:
  assumes "0 \<le> c" "c \<le> 1" "0 \<le> r" "r \<le> 255"
  shows "0 \<le> js_mul (fl c) r" and "js_mul (fl c) r \<le> 255"
    and "\<bar>js_mul (fl c) r - c * r\<bar> \<le> 510 / 9007199254740992"
proof -
  define c' where "c' = fl c"
  have c0: "0 \<le> c'" unfolding c'_def using assms(1) by (rule fl_nonneg)
  have "fl c \<le> real_of_int 1" using assms(2) by (intro fl_le_int) simp_all
  then have c1: "c' \<le> 1" by (simp add: c'_def)
  have "\<bar>fl c - c\<bar> \<le> 1 / 2 ^ 53" using assms(1,2) by (intro fl_abs_error) simp
  then have ce: "\<bar>c' - c\<bar> \<le> 1 / 9007199254740992" by (simp add: c'_def)
  have p0: "0 \<le> c' * r" using c0 assms(3) by simp
  have "c' * r \<le> 1 * 255" using c1 assms(3,4) c0 by (intro mult_mono) simp_all
  then have p255: "c' * r \<le> real_of_int 255" by simp
  show "0 \<le> js_mul (fl c) r"
    unfolding js_mul_def c'_def [symmetric] using p0 by (rule fl_nonneg)
  have "fl (c' * r) \<le> real_of_int 255" using p255 by (intro fl_le_int) simp_all
  then show "js_mul (fl c) r \<le> 255" by (simp add: js_mul_def c'_def)
  have "\<bar>c' * r\<bar> \<le> 255" using p0 p255 by simp
  then have "\<bar>fl (c' * r) - c' * r\<bar> \<le> 255 / 2 ^ 53" by (rule fl_abs_error)
  then have e1: "\<bar>fl (c' * r) - c' * r\<bar> \<le> 255 / 9007199254740992" by simp
  have "\<bar>c' * r - c * r\<bar> = \<bar>c' - c\<bar> * r"
    using assms(3) by (simp add: abs_mult left_diff_distrib [symmetric])
  also have "\<dots> \<le> 1 / 9007199254740992 * 255"
    using ce assms(3,4) by (intro mult_mono) simp_all
  finally have e2: "\<bar>c' * r - c * r\<bar> \<le> 255 / 9007199254740992" by simp
  have "\<bar>fl (c' * r) - c * r\<bar> \<le> 510 / 9007199254740992" using e1 e2 by linarith
  then show "\<bar>js_mul (fl c) r - c * r\<bar> \<le> 510 / 9007199254740992"
    by (simp add: js_mul_def c'_def)
qed

text \<open>
  The luminosity as the source computes it, before \<open>Math.round\<close>: it lies from 0 to 255
  and within \<open>2 powr -40\<close> of the exact weighted sum.
\<close>

lemma luminosity_double:
  assumes "0 \<le> r" "r \<le> 255" "0 \<le> g" "g \<le> 255" "0 \<le> b" "b \<le> 255"
  shows "0 \<le> js_add (js_add (js_mul (fl 0.299) r) (js_mul (fl 0.587) g)) (js_mul (fl 0.114) b)"
    and "js_add (js_add (js_mul (fl 0.299) r) (js_mul (fl 0.587) g)) (js_mul (fl 0.114) b)
          \<le> 255 + 1 / 2 ^ 40"
    and "\<bar>js_add (js_add (js_mul (fl 0.299) r) (js_mul (fl 0.587) g)) (js_mul (fl 0.114) b)
           - (0.299 * r + 0.587 * g + 0.114 * b)\<bar> \<le> 1 / 2 ^ 40"
proof -
  define p1 where "p1 = js_mul (fl 0.299) r"
  define p2 where "p2 = js_mul (fl 0.587) g"
  define p3 where "p3 = js_mul (fl 0.114) b"
  have a1: "0 \<le> p1" "p1 \<le> 255" "\<bar>p1 - 0.299 * r\<bar> \<le> 510 / 9007199254740992"
    unfolding p1_def using assms(1,2) by (intro weighted_channel; simp)+
  have a2: "0 \<le> p2" "p2 \<le> 255" "\<bar>p2 - 0.587 * g\<bar> \<le> 510 / 9007199254740992"
    unfolding p2_def using assms(3,4) by (intro weighted_channel; simp)+
  have a3: "0 \<le> p3" "p3 \<le> 255" "\<bar>p3 - 0.114 * b\<bar> \<le> 510 / 9007199254740992"
    unfolding p3_def using assms(5,6) by (intro weighted_channel; simp)+
  define s1 where "s1 = fl (p1 + p2)"
  have s10: "0 \<le> s1" unfolding s1_def using a1(1) a2(1) by (intro fl_nonneg) simp
  have "p1 + p2 \<le> real_of_int 510" using a1(2) a2(2) by simp
  then have "fl (p1 + p2) \<le> real_of_int 510" by (intro fl_le_int) simp_all
  then have s1u: "s1 \<le> 510" by (simp add: s1_def)
  have "\<bar>p1 + p2\<bar> \<le> 510" using a1(1,2) a2(1,2) by simp
  then have "\<bar>fl (p1 + p2) - (p1 + p2)\<bar> \<le> 510 / 2 ^ 53" by (rule fl_abs_error)
  then have s1e: "\<bar>s1 - (p1 + p2)\<bar> \<le> 510 / 9007199254740992" by (simp add: s1_def)
  define s2 where "s2 = fl (s1 + p3)"
  have s20: "0 \<le> s2" unfolding s2_def using s10 a3(1) by (intro fl_nonneg) simp
  have "\<bar>s1 + p3\<bar> \<le> 765" using s10 s1u a3(1,2) by simp
  then have "\<bar>fl (s1 + p3) - (s1 + p3)\<bar> \<le> 765 / 2 ^ 53" by (rule fl_abs_error)
  then have s2e: "\<bar>s2 - (s1 + p3)\<bar> \<le> 765 / 9007199254740992" by (simp add: s2_def)
  have tot: "\<bar>s2 - (0.299 * r + 0.587 * g + 0.114 * b)\<bar> \<le> 2805 / 9007199254740992"
    using a1(3) a2(3) a3(3) s1e s2e by linarith
  have small: "(2805 :: real) / 9007199254740992 \<le> 1 / 1099511627776" by simp
  have close: "\<bar>s2 - (0.299 * r + 0.587 * g + 0.114 * b)\<bar> \<le> 1 / 1099511627776"
    using tot small by linarith
  have ex: "0.299 * r + 0.587 * g + 0.114 * b \<le> 255" using assms by simp
  have s2: "js_add (js_add (js_mul (fl 0.299) r) (js_mul (fl 0.587) g)) (js_mul (fl 0.114) b) = s2"
    by (simp add: s2_def s1_def p1_def p2_def p3_def js_add_def)
  show "0 \<le> js_add (js_add (js_mul (fl 0.299) r) (js_mul (fl 0.587) g)) (js_mul (fl 0.114) b)"
    unfolding s2 by (rule s20)
  have "s2 \<le> 255 + 1 / 1099511627776" using close ex by linarith
  then show "js_add (js_add (js_mul (fl 0.299) r) (js_mul (fl 0.587) g)) (js_mul (fl 0.114) b)
          \<le> 255 + 1 / 2 ^ 40"
    unfolding s2 by simp
  show "\<bar>js_add (js_add (js_mul (fl 0.299) r) (js_mul (fl 0.587) g)) (js_mul (fl 0.114) b)
           - (0.299 * r + 0.587 * g + 0.114 * b)\<bar> \<le> 1 / 2 ^ 40"
    unfolding s2 using close by simp
qed

lemma js_round_close:
  assumes "\<bar>x - real_of_int n\<bar> < 1 / 2" shows "js_round x = n"
  using assms unfolding js_round_def by linarith

lemma grayscaleValue_Some:
  "grayscaleValue (Some r) (Some g) (Some b) =
     Some (real_of_int (js_round
       (js_add (js_add (js_mul (fl 0.299) r) (js_mul (fl 0.587) g)) (js_mul (fl 0.114) b))))"
  by (simp add: grayscaleValue_def num1_def num2_def)

lemma grayscaleValue_same:
  "grayscaleValue (Some (byte_value w)) (Some (byte_value w)) (Some (byte_value w))
     = Some (byte_value w)"
proof -
  define n where "n = byte_value w"
  define lum where
    "lum = js_add (js_add (js_mul (fl 0.299) n) (js_mul (fl 0.587) n)) (js_mul (fl 0.114) n)"
  have b: "0 \<le> n" "n \<le> 255" using byte_value_bounds [of w] by (simp_all add: n_def)
  have "\<bar>lum - (0.299 * n + 0.587 * n + 0.114 * n)\<bar> \<le> 1 / 2 ^ 40"
    unfolding lum_def using b by (intro luminosity_double(3)) simp_all
  moreover have "0.299 * n + 0.587 * n + 0.114 * n = n" by (simp add: field_simps)
  ultimately have "\<bar>lum - n\<bar> \<le> 1 / 1099511627776" by simp
  then have "\<bar>lum - real_of_int (int (unat w))\<bar> < 1 / 2"
    unfolding n_def byte_value_int by linarith
  then have "js_round lum = int (unat w)" by (rule js_round_close)
  then show ?thesis
    unfolding grayscaleValue_Some n_def [symmetric] lum_def [symmetric]
    by (simp add: n_def byte_value_int)
qed

lemma grayscaleValue_None:
  "r = None \<or> g = None \<or> b = None \<Longrightarrow> grayscaleValue r g b = None"
  by (auto simp: grayscaleValue_def num1_def num2_def split: option.splits)

lemma length_grayscaleBody [simp]: "length (grayscaleBody i d) = length d"
  by (simp add: grayscaleBody_def Let_def)

lemma length_grayscaleLoop [simp]: "length (grayscaleLoop i d) = length d"
  by (induction i d rule: grayscaleLoop.induct) (subst grayscaleLoop.simps, simp)

lemma grayscaleBody_nth:
  "j < length d \<Longrightarrow> grayscaleBody i d ! j =
     (if j = i \<or> j = i + 1 \<or> j = i + 2
      then toUint8Clamp (grayscaleValue (rd d i) (rd d (i + 1)) (rd d (i + 2)))
      else d ! j)"
  by (auto simp: grayscaleBody_def Let_def nth_list_update)

lemma rd_grayscaleBody: "i + 3 \<le> m \<Longrightarrow> rd (grayscaleBody i d) m = rd d m"
  by (simp add: rd_def grayscaleBody_nth)


lemma grayscaleLoop_nth:
  "j < length d \<Longrightarrow> grayscaleLoop i d ! j =
     (if j < i \<or> (j - i) mod 4 = 3 then d ! j
      else toUint8Clamp (grayscaleValue (rd d (i + 4 * ((j - i) div 4)))
                                        (rd d (i + 4 * ((j - i) div 4) + 1))
                                        (rd d (i + 4 * ((j - i) div 4) + 2))))"
proof (induction i d rule: grayscaleLoop.induct)
  case (1 i d)
  show ?case
  proof (cases "i < length d")
    case False
    with "1.prems" show ?thesis by (simp add: grayscaleLoop.simps [of i d])
  next
    case True
    let ?d' = "grayscaleBody i d"
    have step: "grayscaleLoop i d = grayscaleLoop (i + 4) ?d'"
      using True by (simp add: grayscaleLoop.simps [of i d])
    have IH: "grayscaleLoop (i + 4) ?d' ! j =
       (if j < i + 4 \<or> (j - (i + 4)) mod 4 = 3 then ?d' ! j
        else toUint8Clamp (grayscaleValue (rd ?d' (i + 4 + 4 * ((j - (i + 4)) div 4)))
                                        (rd ?d' (i + 4 + 4 * ((j - (i + 4)) div 4) + 1))
                                        (rd ?d' (i + 4 + 4 * ((j - (i + 4)) div 4) + 2))))"
      using "1.IH" [OF True] "1.prems" by simp
    consider "j < i" | "i \<le> j" "j < i + 4" | "i + 4 \<le> j" by linarith
    then show ?thesis
    proof cases
      case 1
      then show ?thesis using "1.prems" by (simp add: step IH grayscaleBody_nth)
    next
      case 2
      then have e: "grayscaleLoop i d ! j = ?d' ! j" by (simp add: step IH)
      from 2 obtain k where k: "j = i + k" "k < 4" by (metis le_Suc_ex nat_add_left_cancel_less)
      then consider "k = 0" | "k = 1" | "k = 2" | "k = 3" by linarith
      then show ?thesis using "1.prems" k unfolding e
        by cases (simp_all add: grayscaleBody_nth)
    next
      case 3
      then obtain k where k: "j = i + 4 + k" by (metis le_Suc_ex)
      have a: "j - i = 4 + k" "j - (i + 4) = k" using k by simp_all
      have b: "(4 + k) mod 4 = k mod 4" "(4 + k) div 4 = Suc (k div 4)" by simp_all
      have c: "i + 4 + 4 * (k div 4) + n \<ge> i + 3" for n by simp
      show ?thesis using "1.prems" unfolding step IH a b
        by (simp add: k grayscaleBody_nth rd_grayscaleBody add.assoc)
    qed
  qed
qed


lemma grayscaleLoop0_nth:
  "j < length d \<Longrightarrow> grayscaleLoop 0 d ! j =
     (if j mod 4 = 3 then d ! j
      else toUint8Clamp (grayscaleValue (rd d (4 * (j div 4))) (rd d (4 * (j div 4) + 1))
                                        (rd d (4 * (j div 4) + 2))))"
  using grayscaleLoop_nth [of j d 0] by simp

lemma grayscale_twice:
  "convertToGrayscaleInPlace (convertToGrayscaleInPlace data) = convertToGrayscaleInPlace data"
proof (rule nth_equalityI)
  show "length (convertToGrayscaleInPlace (convertToGrayscaleInPlace data))
        = length (convertToGrayscaleInPlace data)"
    by (simp add: convertToGrayscaleInPlace_def)
next
  fix j assume "j < length (convertToGrayscaleInPlace (convertToGrayscaleInPlace data))"
  then have j: "j < length data" by (simp add: convertToGrayscaleInPlace_def)
  define d1 where "d1 = grayscaleLoop 0 data"
  define b where "b = 4 * (j div 4)"
  define G where "G = toUint8Clamp (grayscaleValue (rd data b) (rd data (b + 1)) (rd data (b + 2)))"
  have len: "length d1 = length data" by (simp add: d1_def)
  show "convertToGrayscaleInPlace (convertToGrayscaleInPlace data) ! j
        = convertToGrayscaleInPlace data ! j"
  proof (cases "j mod 4 = 3")
    case True
    then show ?thesis using j by (simp add: convertToGrayscaleInPlace_def grayscaleLoop0_nth)
  next
    case False
    have one: "d1 ! j = G" using j False by (simp add: d1_def G_def b_def grayscaleLoop0_nth)
    have two: "grayscaleLoop 0 d1 ! j =
        toUint8Clamp (grayscaleValue (rd d1 b) (rd d1 (b + 1)) (rd d1 (b + 2)))"
      using j False len by (simp add: b_def grayscaleLoop0_nth)
    have goal: "grayscaleLoop 0 d1 ! j = d1 ! j"
    proof (cases "b + 2 < length data")
      case True
      have "d1 ! (b + n) = G" if "n < 3" for n
      proof -
        have "(b + n) mod 4 = n" "(b + n) div 4 = j div 4" using that by (simp_all add: b_def)
        moreover have "b + n < length data" using True that by simp
        ultimately show ?thesis using that
          by (simp add: d1_def G_def grayscaleLoop0_nth b_def [symmetric])
      qed
      from this [of 0] this [of 1] this [of 2]
      have "rd d1 b = Some (byte_value G)" "rd d1 (b + 1) = Some (byte_value G)"
           "rd d1 (b + 2) = Some (byte_value G)"
        using True len by (simp_all add: rd_def)
      then show ?thesis
        by (simp add: one two grayscaleValue_same toUint8Clamp_byte_value)
    next
      case False
      then have "rd data (b + 2) = None" "rd d1 (b + 2) = None"
        using len by (simp_all add: rd_def)
      then show ?thesis
        by (simp add: one two G_def grayscaleValue_None)
    qed
    then show ?thesis by (simp add: convertToGrayscaleInPlace_def d1_def)
  qed
qed


lemma luminosity_bounds:
  assumes "0 \<le> r" "r \<le> 255" "0 \<le> g" "g \<le> 255" "0 \<le> b" "b \<le> 255"
  shows "0 \<le> js_round (js_add (js_add (js_mul (fl 0.299) r) (js_mul (fl 0.587) g))
                                (js_mul (fl 0.114) b))
       \<and> js_round (js_add (js_add (js_mul (fl 0.299) r) (js_mul (fl 0.587) g))
                            (js_mul (fl 0.114) b)) \<le> 255"
proof -
  define lum where
    "lum = js_add (js_add (js_mul (fl 0.299) r) (js_mul (fl 0.587) g)) (js_mul (fl 0.114) b)"
  have lo: "0 \<le> lum" unfolding lum_def using assms by (intro luminosity_double(1))
  have "lum \<le> 255 + 1 / 2 ^ 40" unfolding lum_def using assms by (intro luminosity_double(2))
  then have hi: "lum \<le> 255 + 1 / 1099511627776" by simp
  have "0 \<le> js_round lum \<and> js_round lum \<le> 255"
    using lo hi unfolding js_round_def by linarith
  then show ?thesis by (simp only: lum_def)
qed

section \<open>Grayscale conversion\<close>

text \<open>
  Claim C6. Converting to grayscale twice yields the same bytes as converting once, for
  every byte array. One conversion keeps the length and, for every complete pixel,
  writes \<open>Math.round(0.299 * r + 0.587 * g + 0.114 * b)\<close>, a value from 0 to 255, into the
  red, green and blue bytes and leaves the alpha byte as it was. The sum is the one that
  doubles compute, product by product and from left to right; it is within
  \<open>2 powr -40\<close> of the exact luminosity.
\<close>

theorem grayscale_idempotent:
  "convertToGrayscaleInPlace (convertToGrayscaleInPlace data) = convertToGrayscaleInPlace data
   \<and> length (convertToGrayscaleInPlace data) = length data
   \<and> (4 * p + 3 < length data \<longrightarrow>
        (let r = byte_value (data ! (4 * p));
             g = byte_value (data ! (4 * p + 1));
             b = byte_value (data ! (4 * p + 2));
             luminosity = js_add (js_add (js_mul (fl 0.299) r) (js_mul (fl 0.587) g))
                                 (js_mul (fl 0.114) b);
             gray = js_round luminosity
         in 0 \<le> gray \<and> gray \<le> 255
            \<and> convertToGrayscaleInPlace data ! (4 * p) = word_of_int gray
            \<and> convertToGrayscaleInPlace data ! (4 * p + 1) = word_of_int gray
            \<and> convertToGrayscaleInPlace data ! (4 * p + 2) = word_of_int gray
            \<and> convertToGrayscaleInPlace data ! (4 * p + 3) = data ! (4 * p + 3)
            \<and> \<bar>luminosity - (0.299 * r + 0.587 * g + 0.114 * b)\<bar> \<le> 1 / 2 ^ 40))"
proof -
  have single: ?thesis if p: "4 * p + 3 < length data" and tw: "convertToGrayscaleInPlace (convertToGrayscaleInPlace data) = convertToGrayscaleInPlace data"
  proof -
    define r where "r = byte_value (data ! (4 * p))"
    define g where "g = byte_value (data ! (4 * p + 1))"
    define b where "b = byte_value (data ! (4 * p + 2))"
    define luminosity where
      "luminosity = js_add (js_add (js_mul (fl 0.299) r) (js_mul (fl 0.587) g)) (js_mul (fl 0.114) b)"
    define gray where "gray = js_round luminosity"
    have rgb: "0 \<le> r" "r \<le> 255" "0 \<le> g" "g \<le> 255" "0 \<le> b" "b \<le> 255"
      using byte_value_bounds by (simp_all add: r_def g_def b_def)
    have bnd: "0 \<le> gray \<and> gray \<le> 255"
      unfolding gray_def luminosity_def using rgb by (intro luminosity_bounds)
    have err: "\<bar>luminosity - (0.299 * r + 0.587 * g + 0.114 * b)\<bar> \<le> 1 / 2 ^ 40"
      unfolding luminosity_def using rgb by (intro luminosity_double(3))
    have gv: "grayscaleValue (rd data (4 * p)) (rd data (4 * p + 1)) (rd data (4 * p + 2))
              = Some (real_of_int gray)"
      using p by (simp add: rd_def grayscaleValue_Some gray_def luminosity_def r_def g_def b_def)
    have m: "(4 * p + n) mod 4 = n" "(4 * p + n) div 4 = p" if "n < 4" for n
      using that by simp_all
    have "convertToGrayscaleInPlace data ! (4 * p + n) = word_of_int gray" if "n < 3" for n
      using that p m [of n] gv bnd
      by (simp add: convertToGrayscaleInPlace_def grayscaleLoop0_nth toUint8Clamp_int)
    from this [of 0] this [of 1] this [of 2]
    have rgbs: "convertToGrayscaleInPlace data ! (4 * p) = word_of_int gray"
      "convertToGrayscaleInPlace data ! (4 * p + 1) = word_of_int gray"
      "convertToGrayscaleInPlace data ! (4 * p + 2) = word_of_int gray" by simp_all
    have a: "convertToGrayscaleInPlace data ! (4 * p + 3) = data ! (4 * p + 3)"
      using p m [of 3] by (simp add: convertToGrayscaleInPlace_def grayscaleLoop0_nth)
    have len: "length (convertToGrayscaleInPlace data) = length data"
      by (simp add: convertToGrayscaleInPlace_def)
    show ?thesis unfolding Let_def
      using bnd [unfolded gray_def luminosity_def r_def g_def b_def]
        rgbs [unfolded gray_def luminosity_def r_def g_def b_def]
        err [unfolded luminosity_def r_def g_def b_def] a tw len by blast
  qed
  show ?thesis
  proof (cases "4 * p + 3 < length data")
    case True then show ?thesis using single grayscale_twice by blast
  next
    case False then show ?thesis using grayscale_twice [of data]
      by (simp add: convertToGrayscaleInPlace_def)
  qed
qed

text \<open>
  The pixel (200, 100, 50) has the luminosity 124.2 and becomes 124. The pixel
  (0, 36, 12) has the exact luminosity 22.5; the doubles give 22.499999999999996, and the
  pixel becomes 22.
\<close>

theorem grayscale_idempotent_witness:
  "convertToGrayscaleInPlace [200, 100, 50, 77] ! 0 = 124
   \<and> convertToGrayscaleInPlace [200, 100, 50, 77] ! 1 = 124
   \<and> convertToGrayscaleInPlace [200, 100, 50, 77] ! 2 = 124
   \<and> convertToGrayscaleInPlace [200, 100, 50, 77] ! 3 = 77
   \<and> convertToGrayscaleInPlace [0, 36, 12, 255] ! 0 = 22
   \<and> convertToGrayscaleInPlace [0, 36, 12, 255] ! 3 = 255"
proof -
  define l1 where
    "l1 = js_add (js_add (js_mul (fl 0.299) 200) (js_mul (fl 0.587) 100)) (js_mul (fl 0.114) 50)"
  define l2 where
    "l2 = js_add (js_add (js_mul (fl 0.299) 0) (js_mul (fl 0.587) 36)) (js_mul (fl 0.114) 12)"
  have one: "convertToGrayscaleInPlace [200, 100, 50, 77] ! 0 = word_of_int (js_round l1)"
    "convertToGrayscaleInPlace [200, 100, 50, 77] ! 1 = word_of_int (js_round l1)"
    "convertToGrayscaleInPlace [200, 100, 50, 77] ! 2 = word_of_int (js_round l1)"
    "convertToGrayscaleInPlace [200, 100, 50, 77] ! 3 = 77"
    "\<bar>l1 - (0.299 * 200 + 0.587 * 100 + 0.114 * 50)\<bar> \<le> 1 / 2 ^ 40"
    using grayscale_idempotent [of "[200, 100, 50, 77]" 0, unfolded mult_0_right add_0]
    by (simp_all add: byte_value_def Let_def l1_def)
  have two: "convertToGrayscaleInPlace [0, 36, 12, 255] ! 0 = word_of_int (js_round l2)"
    "convertToGrayscaleInPlace [0, 36, 12, 255] ! 3 = 255"
    using grayscale_idempotent [of "[0, 36, 12, 255]" 0, unfolded mult_0_right add_0]
    by (simp_all add: byte_value_def Let_def l2_def)
  have "\<bar>l1 - 1242 / 10\<bar> \<le> 1 / 1099511627776" using one(5) by simp
  then have r1: "js_round l1 = 124" unfolding js_round_def by linarith
  have c2: "fl 0.587 = 5287225962532962 / 2 ^ 53"
    using fl_eval_down [of "0.587" 53 5287225962532962] by simp
  have c3: "fl 0.114 = 8214565720323785 / 2 ^ 56"
    using fl_eval_down [of "0.114" 56 8214565720323785] by simp
  have p2: "fl (5287225962532962 / 2 ^ 53 * 36) = 5948129207849582 / 2 ^ 48"
    using fl_eval_down [of "5287225962532962 / 2 ^ 53 * 36" 48 5948129207849582] by simp
  have p3: "fl (8214565720323785 / 2 ^ 56 * 12) = 6160924290242839 / 2 ^ 52"
    using fl_eval_down [of "8214565720323785 / 2 ^ 56 * 12" 52 6160924290242839] by simp
  have s1: "fl (0 + 5948129207849582 / 2 ^ 48) = 5948129207849582 / 2 ^ 48"
    using fl_dyadic [of 5948129207849582 48] by simp
  have s2: "fl (5948129207849582 / 2 ^ 48 + 6160924290242839 / 2 ^ 52) = 6333186975989759 / 2 ^ 48"
    using fl_eval_down [of "5948129207849582 / 2 ^ 48 + 6160924290242839 / 2 ^ 52" 48
            6333186975989759] by simp
  have z: "fl (fl 0.299 * 0) = 0" by simp
  have l2: "l2 = 6333186975989759 / 2 ^ 48"
    unfolding l2_def js_add_def js_mul_def z c2 c3 p2 p3 s1 s2 ..
  have r2: "js_round l2 = 22" unfolding l2 by (simp add: js_round_def)
  show ?thesis using one(1-4) two unfolding r1 r2 by simp
qed

section \<open>The colour distance in doubles\<close>

lemma fl_abs: "fl \<bar>x\<bar> = \<bar>fl x\<bar>"
proof (cases "0 \<le> x")
  case True
  then show ?thesis using fl_nonneg [of x] by simp
next
  case False
  then have "0 \<le> fl (- x)" by (intro fl_nonneg) simp
  then show ?thesis using False by (simp add: fl_minus)
qed

lemma fl_rel:
  assumes "0 \<le> x"
  shows "(1 - 1 / 2 ^ 53) * x \<le> fl x" and "fl x \<le> (1 + 1 / 2 ^ 53) * x"
proof -
  have "\<bar>fl x - x\<bar> \<le> x / 2 ^ 53" using fl_error [of x] assms by simp
  then have "x - x / 2 ^ 53 \<le> fl x \<and> fl x \<le> x + x / 2 ^ 53" by linarith
  then show "(1 - 1 / 2 ^ 53) * x \<le> fl x" and "fl x \<le> (1 + 1 / 2 ^ 53) * x"
    by (simp_all add: algebra_simps)
qed

lemma fl_rel_pow:
  assumes "0 \<le> A" "(1 - 1 / 2 ^ 53) ^ k * A \<le> y" "y \<le> (1 + 1 / 2 ^ 53) ^ k * A"
  shows "(1 - 1 / 2 ^ 53) ^ Suc k * A \<le> fl y" and "fl y \<le> (1 + 1 / 2 ^ 53) ^ Suc k * A"
proof -
  define l :: real where "l = 1 - 1 / 2 ^ 53"
  define u :: real where "u = 1 + 1 / 2 ^ 53"
  have l: "0 \<le> l" and u: "0 \<le> u" by (simp_all add: l_def u_def)
  have "0 \<le> l ^ k * A" using l assms(1) by simp
  with assms(2) have y: "0 \<le> y" unfolding l_def by linarith
  have "l * (l ^ k * A) \<le> l * y" using assms(2) l unfolding l_def by (intro mult_left_mono) simp_all
  also have "\<dots> \<le> fl y" unfolding l_def using y by (rule fl_rel(1))
  finally show "(1 - 1 / 2 ^ 53) ^ Suc k * A \<le> fl y" by (simp add: l_def mult.assoc)
  have "fl y \<le> u * y" unfolding u_def using y by (rule fl_rel(2))
  also have "\<dots> \<le> u * (u ^ k * A)" using assms(3) u unfolding u_def by (intro mult_left_mono) simp_all
  finally show "fl y \<le> (1 + 1 / 2 ^ 53) ^ Suc k * A" by (simp add: u_def mult.assoc)
qed

lemma pow_weaken:
  assumes "0 \<le> A" "k \<le> k'"
  shows "(1 - 1 / 2 ^ 53) ^ k' * A \<le> (1 - 1 / 2 ^ 53) ^ k * (A :: real)"
    and "(1 + 1 / 2 ^ 53) ^ k * A \<le> (1 + 1 / 2 ^ 53) ^ k' * A"
proof -
  have "((1 :: real) - 1 / 2 ^ 53) ^ k' \<le> (1 - 1 / 2 ^ 53) ^ k"
    using assms(2) by (intro power_decreasing) simp_all
  then show "(1 - 1 / 2 ^ 53) ^ k' * A \<le> (1 - 1 / 2 ^ 53) ^ k * A"
    using assms(1) by (rule mult_right_mono)
  have "((1 :: real) + 1 / 2 ^ 53) ^ k \<le> (1 + 1 / 2 ^ 53) ^ k'"
    using assms(2) by (intro power_increasing) simp_all
  then show "(1 + 1 / 2 ^ 53) ^ k * A \<le> (1 + 1 / 2 ^ 53) ^ k' * A"
    using assms(1) by (rule mult_right_mono)
qed

text \<open>One squared difference: \<open>Math.pow(a - x, 2)\<close>.\<close>

lemma squared_difference:
  "(1 - 1 / 2 ^ 53) ^ 3 * (a - x)\<^sup>2 \<le> js_pow2 (js_sub a x)"
  "js_pow2 (js_sub a x) \<le> (1 + 1 / 2 ^ 53) ^ 3 * (a - x)\<^sup>2"
proof -
  define d0 where "d0 = a - x"
  define d where "d = fl d0"
  define l :: real where "l = 1 - 1 / 2 ^ 53"
  define u :: real where "u = 1 + 1 / 2 ^ 53"
  have l: "0 \<le> l" and u: "0 \<le> u" by (simp_all add: l_def u_def)
  have ad: "\<bar>d\<bar> = fl \<bar>d0\<bar>" by (simp add: d_def fl_abs)
  have lo: "l * \<bar>d0\<bar> \<le> \<bar>d\<bar>" unfolding ad l_def by (intro fl_rel(1)) simp
  have hi: "\<bar>d\<bar> \<le> u * \<bar>d0\<bar>" unfolding ad u_def by (intro fl_rel(2)) simp
  have e1: "(l * \<bar>d0\<bar>)\<^sup>2 = l ^ 2 * d0\<^sup>2" by (simp add: power_mult_distrib)
  have e2: "(u * \<bar>d0\<bar>)\<^sup>2 = u ^ 2 * d0\<^sup>2" by (simp add: power_mult_distrib)
  have e3: "\<bar>d\<bar>\<^sup>2 = d * d" by (simp add: power2_eq_square)
  have "(l * \<bar>d0\<bar>)\<^sup>2 \<le> \<bar>d\<bar>\<^sup>2" using lo l by (intro power_mono) simp_all
  then have lo2: "l ^ 2 * d0\<^sup>2 \<le> d * d" by (simp only: e1 e3)
  have "\<bar>d\<bar>\<^sup>2 \<le> (u * \<bar>d0\<bar>)\<^sup>2" using hi by (intro power_mono) simp_all
  then have hi2: "d * d \<le> u ^ 2 * d0\<^sup>2" by (simp only: e2 e3)
  have "(1 - 1 / 2 ^ 53) ^ Suc 2 * d0\<^sup>2 \<le> fl (d * d)"
    using lo2 hi2 unfolding l_def u_def by (intro fl_rel_pow(1)) simp_all
  then show "(1 - 1 / 2 ^ 53) ^ 3 * (a - x)\<^sup>2 \<le> js_pow2 (js_sub a x)"
    by (simp add: js_pow2_def js_sub_def d_def d0_def numeral_3_eq_3)
  have "fl (d * d) \<le> (1 + 1 / 2 ^ 53) ^ Suc 2 * d0\<^sup>2"
    using lo2 hi2 unfolding l_def u_def by (intro fl_rel_pow(2)) simp_all
  then show "js_pow2 (js_sub a x) \<le> (1 + 1 / 2 ^ 53) ^ 3 * (a - x)\<^sup>2"
    by (simp add: js_pow2_def js_sub_def d_def d0_def numeral_3_eq_3)
qed

text \<open>
  The distance that the two loops compute lies within the relative error \<open>2 powr -50\<close> of
  the Euclidean distance, whatever the two colours.
\<close>

lemma distance_relative_error:
  fixes a b c x y z :: real
  defines "E \<equiv> sqrt ((a - x)\<^sup>2 + (b - y)\<^sup>2 + (c - z)\<^sup>2)"
  defines "D \<equiv> js_sqrt (js_add (js_add (js_pow2 (js_sub a x)) (js_pow2 (js_sub b y)))
                                (js_pow2 (js_sub c z)))"
  shows "(1 - 1 / 2 ^ 50) * E \<le> D" and "D \<le> (1 + 1 / 2 ^ 50) * E"
proof -
  define A1 where "A1 = (a - x)\<^sup>2"
  define A2 where "A2 = (b - y)\<^sup>2"
  define A3 where "A3 = (c - z)\<^sup>2"
  define q1 where "q1 = js_pow2 (js_sub a x)"
  define q2 where "q2 = js_pow2 (js_sub b y)"
  define q3 where "q3 = js_pow2 (js_sub c z)"
  define l :: real where "l = 1 - 1 / 2 ^ 53"
  define u :: real where "u = 1 + 1 / 2 ^ 53"
  have l: "0 \<le> l" and u: "0 \<le> u" by (simp_all add: l_def u_def)
  have A: "0 \<le> A1" "0 \<le> A2" "0 \<le> A3" by (simp_all add: A1_def A2_def A3_def)
  have b1: "l ^ 3 * A1 \<le> q1" "q1 \<le> u ^ 3 * A1"
    unfolding l_def u_def q1_def A1_def by (rule squared_difference)+
  have b2: "l ^ 3 * A2 \<le> q2" "q2 \<le> u ^ 3 * A2"
    unfolding l_def u_def q2_def A2_def by (rule squared_difference)+
  have b3: "l ^ 3 * A3 \<le> q3" "q3 \<le> u ^ 3 * A3"
    unfolding l_def u_def q3_def A3_def by (rule squared_difference)+
  define s1 where "s1 = fl (q1 + q2)"
  have s1: "l ^ Suc 3 * (A1 + A2) \<le> s1" "s1 \<le> u ^ Suc 3 * (A1 + A2)"
  proof -
    have lo: "(1 - 1 / 2 ^ 53) ^ 3 * (A1 + A2) \<le> q1 + q2"
      using b1(1) b2(1) by (simp add: l_def algebra_simps)
    have hi: "q1 + q2 \<le> (1 + 1 / 2 ^ 53) ^ 3 * (A1 + A2)"
      using b1(2) b2(2) by (simp add: u_def algebra_simps)
    have a0: "0 \<le> A1 + A2" using A by simp
    show "l ^ Suc 3 * (A1 + A2) \<le> s1" unfolding l_def s1_def
      using a0 lo hi by (rule fl_rel_pow(1))
    show "s1 \<le> u ^ Suc 3 * (A1 + A2)" unfolding u_def s1_def
      using a0 lo hi by (rule fl_rel_pow(2))
  qed
  have w3: "l ^ Suc 3 * A3 \<le> l ^ 3 * A3" "u ^ 3 * A3 \<le> u ^ Suc 3 * A3"
    unfolding l_def u_def using A(3) by (intro pow_weaken; simp)+
  define S where "S = A1 + A2 + A3"
  have S0: "0 \<le> S" using A by (simp add: S_def)
  define s2 where "s2 = fl (s1 + q3)"
  have s2: "l ^ Suc (Suc 3) * S \<le> s2" "s2 \<le> u ^ Suc (Suc 3) * S"
  proof -
    have "l ^ Suc 3 * S = l ^ Suc 3 * (A1 + A2) + l ^ Suc 3 * A3"
      by (simp add: S_def algebra_simps)
    also have "\<dots> \<le> s1 + q3" using s1(1) w3(1) b3(1) by linarith
    finally have lo: "(1 - 1 / 2 ^ 53) ^ Suc 3 * S \<le> s1 + q3" by (simp only: l_def)
    have "s1 + q3 \<le> u ^ Suc 3 * (A1 + A2) + u ^ Suc 3 * A3" using s1(2) w3(2) b3(2) by linarith
    also have "\<dots> = u ^ Suc 3 * S" by (simp add: S_def algebra_simps)
    finally have hi: "s1 + q3 \<le> (1 + 1 / 2 ^ 53) ^ Suc 3 * S" by (simp only: u_def)
    show "l ^ Suc (Suc 3) * S \<le> s2" unfolding l_def s2_def using S0 lo hi by (rule fl_rel_pow(1))
    show "s2 \<le> u ^ Suc (Suc 3) * S" unfolding u_def s2_def using S0 lo hi by (rule fl_rel_pow(2))
  qed
  have w6: "l ^ 6 * S \<le> l ^ Suc (Suc 3) * S" "u ^ Suc (Suc 3) * S \<le> u ^ 6 * S"
    unfolding l_def u_def using S0 by (intro pow_weaken; simp)+
  have s6: "l ^ 6 * S \<le> s2" "s2 \<le> u ^ 6 * S" using s2 w6 by linarith+
  have sq: "sqrt (v ^ 6 * S) = v ^ 3 * sqrt S" if "0 \<le> v" for v :: real
  proof -
    have "v ^ 6 = (v ^ 3)\<^sup>2" by (simp add: power_mult [symmetric])
    then have "sqrt (v ^ 6 * S) = sqrt ((v ^ 3)\<^sup>2) * sqrt S" by (simp only: real_sqrt_mult)
    also have "sqrt ((v ^ 3)\<^sup>2) = \<bar>v ^ 3\<bar>" by (rule real_sqrt_abs)
    also have "\<bar>v ^ 3\<bar> = v ^ 3" using that by simp
    finally show ?thesis .
  qed
  note sq_l = sq [OF l] and sq_u = sq [OF u]
  have r: "l ^ 3 * sqrt S \<le> sqrt s2" "sqrt s2 \<le> u ^ 3 * sqrt S"
    using s6 sq_l sq_u real_sqrt_le_mono by metis+
  have E0: "0 \<le> sqrt S" using S0 by simp
  have d: "(1 - 1 / 2 ^ 53) ^ Suc 3 * sqrt S \<le> fl (sqrt s2)"
          "fl (sqrt s2) \<le> (1 + 1 / 2 ^ 53) ^ Suc 3 * sqrt S"
    using E0 r unfolding l_def u_def by (rule fl_rel_pow)+
  have DD: "D = fl (sqrt s2)"
    by (simp add: D_def js_sqrt_def js_add_def s2_def s1_def q1_def q2_def q3_def)
  have EE: "E = sqrt S" by (simp add: E_def S_def A1_def A2_def A3_def)
  have n1: "(1 :: real) - 1 / 2 ^ 50 \<le> (1 - 1 / 2 ^ 53) ^ Suc 3"
    by (simp add: power_divide)
  have n2: "((1 :: real) + 1 / 2 ^ 53) ^ Suc 3 \<le> 1 + 1 / 2 ^ 50"
    by (simp add: power_divide)
  have "(1 - 1 / 2 ^ 50) * sqrt S \<le> (1 - 1 / 2 ^ 53) ^ Suc 3 * sqrt S"
    using n1 E0 by (rule mult_right_mono)
  then show "(1 - 1 / 2 ^ 50) * E \<le> D" unfolding DD EE using d(1) by linarith
  have "(1 + 1 / 2 ^ 53) ^ Suc 3 * sqrt S \<le> (1 + 1 / 2 ^ 50) * sqrt S"
    using n2 E0 by (rule mult_right_mono)
  then show "D \<le> (1 + 1 / 2 ^ 50) * E" unfolding DD EE using d(2) by linarith
qed

lemma fl_div_pow2: "fl (x / 2 ^ k) = fl x / 2 ^ k"
proof -
  have p: "(2 :: real) powr real_of_int (- int k) = 1 / 2 ^ k"
    by (simp add: powr_minus powr_realpow field_simps)
  have "fl (x * 2 powr real_of_int (- int k)) = fl x * 2 powr real_of_int (- int k)"
    by (rule fl_scale)
  then show ?thesis unfolding p by simp
qed

text \<open>
  The rounded square root of a whole number up to \<open>2 ^ 24\<close> compares with a whole number
  as the exact square root does: the next double is much nearer than the next square root.
\<close>

lemma sqrt_upto_4096:
  assumes "0 \<le> N" "N \<le> 2 ^ 24"
  shows "0 \<le> sqrt (real_of_int N)" and "sqrt (real_of_int N) \<le> 4096"
    and "\<bar>fl (sqrt (real_of_int N)) - sqrt (real_of_int N)\<bar> \<le> 1 / 2 ^ 41"
proof -
  show a: "0 \<le> sqrt (real_of_int N)" using assms(1) by simp
  have "real_of_int N \<le> 4096\<^sup>2" using assms(2) by simp
  then show b: "sqrt (real_of_int N) \<le> 4096" by (intro real_le_lsqrt) simp_all
  have "\<bar>sqrt (real_of_int N)\<bar> \<le> 4096" using a b by simp
  then have "\<bar>fl (sqrt (real_of_int N)) - sqrt (real_of_int N)\<bar> \<le> 4096 / 2 ^ 53"
    by (rule fl_abs_error)
  then show "\<bar>fl (sqrt (real_of_int N)) - sqrt (real_of_int N)\<bar> \<le> 1 / 2 ^ 41" by simp
qed

lemma fl_sqrt_le_iff:
  assumes "0 \<le> N" "N \<le> 2 ^ 24" "0 \<le> T"
  shows "fl (sqrt (real_of_int N)) \<le> real_of_int T \<longleftrightarrow> N \<le> T\<^sup>2"
proof
  assume le: "N \<le> T\<^sup>2"
  define x where "x = sqrt (real_of_int N)"
  note s = sqrt_upto_4096 [OF assms(1,2), folded x_def]
  show "fl (sqrt (real_of_int N)) \<le> real_of_int T"
  proof (cases "T \<le> 4096")
    case True
    have "real_of_int N \<le> (real_of_int T)\<^sup>2"
      using le by (metis of_int_le_iff of_int_power)
    then have "x \<le> real_of_int T" unfolding x_def using assms(3) by (intro real_le_lsqrt) simp_all
    then have "fl x \<le> real_of_int T" using True assms(3) by (intro fl_le_int) simp_all
    then show ?thesis by (simp only: x_def)
  next
    case False
    have "x \<le> real_of_int 4096" using s(2) by simp
    then have "fl x \<le> real_of_int 4096" by (intro fl_le_int) simp_all
    moreover have "real_of_int 4096 \<le> real_of_int T" using False by simp
    ultimately show ?thesis unfolding x_def by linarith
  qed
next
  assume fle: "fl (sqrt (real_of_int N)) \<le> real_of_int T"
  define x where "x = sqrt (real_of_int N)"
  define t where "t = real_of_int T"
  note s = sqrt_upto_4096 [OF assms(1,2), folded x_def]
  show "N \<le> T\<^sup>2"
  proof (rule ccontr)
    assume "\<not> N \<le> T\<^sup>2"
    then have gt: "T\<^sup>2 + 1 \<le> N" by simp
    have T: "T \<le> 4095"
    proof (rule ccontr)
      assume "\<not> T \<le> 4095"
      then have "4096 \<le> T" by simp
      then have "4096\<^sup>2 \<le> T\<^sup>2" by (intro power_mono) simp_all
      with gt assms(2) show False by simp
    qed
    have t: "0 \<le> t" "t \<le> 4095" using assms(3) T by (simp_all add: t_def)
    have "(t + 1 / 8193)\<^sup>2 = t\<^sup>2 + t * (2 / 8193) + (1 / 8193)\<^sup>2"
      by (simp add: power2_eq_square algebra_simps)
    also have "\<dots> \<le> t\<^sup>2 + 1"
    proof -
      have "(1 / 8193 :: real)\<^sup>2 = 1 / 67125249" by (simp add: power2_eq_square)
      then show ?thesis using t by linarith
    qed
    also have "\<dots> = real_of_int (T\<^sup>2 + 1)" by (simp add: t_def)
    also have "\<dots> \<le> real_of_int N" using gt by (simp only: of_int_le_iff)
    finally have "t + 1 / 8193 \<le> x" unfolding x_def by (rule real_le_rsqrt)
    moreover have "(1 :: real) / 2 ^ 41 < 1 / 8193" by simp
    ultimately have "t < fl x" using s(3) by linarith
    with fle show False by (simp add: x_def t_def)
  qed
qed

lemma fl_sqrt_less_iff:
  assumes "0 \<le> N" "N \<le> 2 ^ 24" "0 \<le> T"
  shows "fl (sqrt (real_of_int N)) < real_of_int T \<longleftrightarrow> N < T\<^sup>2"
proof
  assume lt: "N < T\<^sup>2"
  define x where "x = sqrt (real_of_int N)"
  define t where "t = real_of_int T"
  note s = sqrt_upto_4096 [OF assms(1,2), folded x_def]
  have T1: "1 \<le> T"
  proof (rule ccontr)
    assume "\<not> 1 \<le> T"
    with assms(3) have "T = 0" by simp
    with lt assms(1) show False by simp
  qed
  show "fl (sqrt (real_of_int N)) < real_of_int T"
  proof (cases "T \<le> 4096")
    case True
    have t: "1 \<le> t" "t \<le> 4096" using T1 True by (simp_all add: t_def)
    have "N \<le> T\<^sup>2 - 1" using lt by simp
    then have "real_of_int N \<le> real_of_int (T\<^sup>2 - 1)" by (simp only: of_int_le_iff)
    also have "\<dots> = t\<^sup>2 - 1" by (simp add: t_def)
    also have "\<dots> \<le> t\<^sup>2 - t * (2 / 8193) + (1 / 8193)\<^sup>2"
    proof -
      have "(1 / 8193 :: real)\<^sup>2 = 1 / 67125249" by (simp add: power2_eq_square)
      then show ?thesis using t by linarith
    qed
    also have "\<dots> = (t - 1 / 8193)\<^sup>2" by (simp add: power2_eq_square algebra_simps)
    finally have "x \<le> t - 1 / 8193" unfolding x_def using t by (intro real_le_lsqrt) simp_all
    moreover have "(1 :: real) / 2 ^ 41 < 1 / 8193" by simp
    ultimately have "fl x < t" using s(3) by linarith
    then show ?thesis by (simp only: x_def t_def)
  next
    case False
    have "x \<le> real_of_int 4096" using s(2) by simp
    then have "fl x \<le> real_of_int 4096" by (intro fl_le_int) simp_all
    moreover have "real_of_int 4096 < real_of_int T" using False by simp
    ultimately show ?thesis unfolding x_def by linarith
  qed
next
  assume flt: "fl (sqrt (real_of_int N)) < real_of_int T"
  define x where "x = sqrt (real_of_int N)"
  show "N < T\<^sup>2"
  proof (rule ccontr)
    assume "\<not> N < T\<^sup>2"
    then have ge: "T\<^sup>2 \<le> N" by simp
    have T: "T \<le> 4096"
    proof (rule ccontr)
      assume "\<not> T \<le> 4096"
      then have "4097 \<le> T" by simp
      then have "4097\<^sup>2 \<le> T\<^sup>2" by (intro power_mono) simp_all
      with ge assms(2) show False by simp
    qed
    have "(real_of_int T)\<^sup>2 \<le> real_of_int N"
      using ge by (metis of_int_le_iff of_int_power)
    then have "real_of_int T \<le> x" unfolding x_def by (rule real_le_rsqrt)
    then have "real_of_int T \<le> fl x" using T assms(3) by (intro fl_ge_int) simp_all
    with flt show False by (simp add: x_def)
  qed
qed

text \<open>
  When the first colour is whole in each channel and the second a whole number of
  eighths, as a mean of eight bytes is, every operation before the square root is exact,
  and the distance is the rounded square root of a whole number of 64ths.
\<close>

lemma distance_eighths:
  fixes ri gi bi kr kg kb :: int
  assumes "\<bar>8 * ri - kr\<bar> \<le> 2040" "\<bar>8 * gi - kg\<bar> \<le> 2040" "\<bar>8 * bi - kb\<bar> \<le> 2040"
  shows "js_sqrt (js_add (js_add (js_pow2 (js_sub (real_of_int ri) (real_of_int kr / 8)))
                                 (js_pow2 (js_sub (real_of_int gi) (real_of_int kg / 8))))
                         (js_pow2 (js_sub (real_of_int bi) (real_of_int kb / 8))))
         = fl (sqrt (real_of_int ((8 * ri - kr)\<^sup>2 + (8 * gi - kg)\<^sup>2 + (8 * bi - kb)\<^sup>2))) / 8"
    and "sqrt ((real_of_int ri - real_of_int kr / 8)\<^sup>2 + (real_of_int gi - real_of_int kg / 8)\<^sup>2
               + (real_of_int bi - real_of_int kb / 8)\<^sup>2)
         = sqrt (real_of_int ((8 * ri - kr)\<^sup>2 + (8 * gi - kg)\<^sup>2 + (8 * bi - kb)\<^sup>2)) / 8"
    and "0 \<le> (8 * ri - kr)\<^sup>2 + (8 * gi - kg)\<^sup>2 + (8 * bi - kb)\<^sup>2"
    and "(8 * ri - kr)\<^sup>2 + (8 * gi - kg)\<^sup>2 + (8 * bi - kb)\<^sup>2 \<le> 2 ^ 24"
proof -
  define m1 where "m1 = 8 * ri - kr"
  define m2 where "m2 = 8 * gi - kg"
  define m3 where "m3 = 8 * bi - kb"
  have sq: "m\<^sup>2 \<le> 2040\<^sup>2" if "\<bar>m\<bar> \<le> 2040" for m :: int
  proof -
    have "\<bar>m\<bar>\<^sup>2 \<le> 2040\<^sup>2" using that by (intro power_mono) simp_all
    then show ?thesis by simp
  qed
  have b: "m1\<^sup>2 \<le> 2040\<^sup>2" "m2\<^sup>2 \<le> 2040\<^sup>2" "m3\<^sup>2 \<le> 2040\<^sup>2"
    using assms by (simp_all only: m1_def m2_def m3_def sq)
  have n: "0 \<le> m1\<^sup>2" "0 \<le> m2\<^sup>2" "0 \<le> m3\<^sup>2" by simp_all
  show M0: "0 \<le> (8 * ri - kr)\<^sup>2 + (8 * gi - kg)\<^sup>2 + (8 * bi - kb)\<^sup>2" by simp
  show "(8 * ri - kr)\<^sup>2 + (8 * gi - kg)\<^sup>2 + (8 * bi - kb)\<^sup>2 \<le> 2 ^ 24"
    using b unfolding m1_def m2_def m3_def by simp
  have sub: "js_sub (real_of_int r) (real_of_int k / 8) = real_of_int (8 * r - k) / 2 ^ 3"
    if "\<bar>8 * r - k\<bar> \<le> 2040" for r k :: int
  proof -
    have "real_of_int r - real_of_int k / 8 = real_of_int (8 * r - k) / 2 ^ 3" by simp
    moreover have "fl (real_of_int (8 * r - k) / 2 ^ 3) = real_of_int (8 * r - k) / 2 ^ 3"
      using that by (intro fl_dyadic) simp
    ultimately show ?thesis by (simp only: js_sub_def)
  qed
  have pow: "js_pow2 (real_of_int m / 2 ^ 3) = real_of_int (m\<^sup>2) / 2 ^ 6"
    if "m\<^sup>2 \<le> 2040\<^sup>2" for m :: int
  proof -
    have "real_of_int m / 2 ^ 3 * (real_of_int m / 2 ^ 3) = real_of_int (m\<^sup>2) / 2 ^ 6"
      by (simp add: power2_eq_square)
    moreover have "fl (real_of_int (m\<^sup>2) / 2 ^ 6) = real_of_int (m\<^sup>2) / 2 ^ 6"
      using that by (intro fl_dyadic) simp
    ultimately show ?thesis by (simp only: js_pow2_def)
  qed
  have add: "js_add (real_of_int p / 2 ^ 6) (real_of_int q / 2 ^ 6) = real_of_int (p + q) / 2 ^ 6"
    if "0 \<le> p" "0 \<le> q" "p + q \<le> 2 ^ 24" for p q :: int
  proof -
    have "real_of_int p / 2 ^ 6 + real_of_int q / 2 ^ 6 = real_of_int (p + q) / 2 ^ 6"
      by (simp add: add_divide_distrib)
    moreover have "fl (real_of_int (p + q) / 2 ^ 6) = real_of_int (p + q) / 2 ^ 6"
      using that by (intro fl_dyadic) simp
    ultimately show ?thesis by (simp only: js_add_def)
  qed
  have s1: "js_add (real_of_int (m1\<^sup>2) / 2 ^ 6) (real_of_int (m2\<^sup>2) / 2 ^ 6)
            = real_of_int (m1\<^sup>2 + m2\<^sup>2) / 2 ^ 6"
    using b n by (intro add) simp_all
  have s2: "js_add (real_of_int (m1\<^sup>2 + m2\<^sup>2) / 2 ^ 6) (real_of_int (m3\<^sup>2) / 2 ^ 6)
            = real_of_int (m1\<^sup>2 + m2\<^sup>2 + m3\<^sup>2) / 2 ^ 6"
    using b n by (intro add) simp_all
  have rt: "sqrt (real_of_int M / 2 ^ 6) = sqrt (real_of_int M) / 2 ^ 3" for M :: int
  proof -
    have "(2 :: real) ^ 6 = (2 ^ 3)\<^sup>2" by simp
    then have "sqrt ((2 :: real) ^ 6) = \<bar>2 ^ 3\<bar>" by (simp only: real_sqrt_abs)
    then show ?thesis by (simp add: real_sqrt_divide)
  qed
  have "js_sqrt (js_add (js_add (js_pow2 (js_sub (real_of_int ri) (real_of_int kr / 8)))
                                 (js_pow2 (js_sub (real_of_int gi) (real_of_int kg / 8))))
                         (js_pow2 (js_sub (real_of_int bi) (real_of_int kb / 8))))
        = fl (sqrt (real_of_int (m1\<^sup>2 + m2\<^sup>2 + m3\<^sup>2)) / 2 ^ 3)"
    unfolding sub [OF assms(1)] sub [OF assms(2)] sub [OF assms(3)]
      m1_def [symmetric] m2_def [symmetric] m3_def [symmetric]
      pow [OF b(1)] pow [OF b(2)] pow [OF b(3)] s1 s2 js_sqrt_def rt ..
  then show "js_sqrt (js_add (js_add (js_pow2 (js_sub (real_of_int ri) (real_of_int kr / 8)))
                                 (js_pow2 (js_sub (real_of_int gi) (real_of_int kg / 8))))
                         (js_pow2 (js_sub (real_of_int bi) (real_of_int kb / 8))))
         = fl (sqrt (real_of_int ((8 * ri - kr)\<^sup>2 + (8 * gi - kg)\<^sup>2 + (8 * bi - kb)\<^sup>2))) / 8"
    unfolding fl_div_pow2 m1_def m2_def m3_def by simp
  have e: "(real_of_int r - real_of_int k / 8)\<^sup>2 = real_of_int ((8 * r - k)\<^sup>2) / 2 ^ 6"
    for r k :: int
    by (simp add: power2_eq_square field_simps)
  have "(real_of_int ri - real_of_int kr / 8)\<^sup>2 + (real_of_int gi - real_of_int kg / 8)\<^sup>2
               + (real_of_int bi - real_of_int kb / 8)\<^sup>2
        = real_of_int ((8 * ri - kr)\<^sup>2 + (8 * gi - kg)\<^sup>2 + (8 * bi - kb)\<^sup>2) / 2 ^ 6"
    unfolding e by (simp add: add_divide_distrib)
  then show "sqrt ((real_of_int ri - real_of_int kr / 8)\<^sup>2 + (real_of_int gi - real_of_int kg / 8)\<^sup>2
               + (real_of_int bi - real_of_int kb / 8)\<^sup>2)
         = sqrt (real_of_int ((8 * ri - kr)\<^sup>2 + (8 * gi - kg)\<^sup>2 + (8 * bi - kb)\<^sup>2)) / 8"
    by (simp only: rt) simp
qed

lemma distance_eighths_compare:
  fixes ri gi bi kr kg kb T8 :: int
  assumes "\<bar>8 * ri - kr\<bar> \<le> 2040" "\<bar>8 * gi - kg\<bar> \<le> 2040" "\<bar>8 * bi - kb\<bar> \<le> 2040"
  defines "D \<equiv> js_sqrt (js_add (js_add (js_pow2 (js_sub (real_of_int ri) (real_of_int kr / 8)))
                                 (js_pow2 (js_sub (real_of_int gi) (real_of_int kg / 8))))
                         (js_pow2 (js_sub (real_of_int bi) (real_of_int kb / 8))))"
  defines "E \<equiv> sqrt ((real_of_int ri - real_of_int kr / 8)\<^sup>2
                      + (real_of_int gi - real_of_int kg / 8)\<^sup>2
                      + (real_of_int bi - real_of_int kb / 8)\<^sup>2)"
  shows "D \<le> real_of_int T8 / 8 \<longleftrightarrow> E \<le> real_of_int T8 / 8"
    and "D < real_of_int T8 / 8 \<longleftrightarrow> E < real_of_int T8 / 8"
proof -
  define M where "M = (8 * ri - kr)\<^sup>2 + (8 * gi - kg)\<^sup>2 + (8 * bi - kb)\<^sup>2"
  note d = distance_eighths [OF assms(1-3), folded M_def D_def E_def]
  have D: "D = fl (sqrt (real_of_int M)) / 8" and E: "E = sqrt (real_of_int M) / 8"
    using d(1,2) by simp_all
  have M: "0 \<le> M" "M \<le> 2 ^ 24" using d(3,4) by simp_all
  have f0: "0 \<le> fl (sqrt (real_of_int M))" using M(1) by (intro fl_nonneg) simp
  have s0: "0 \<le> sqrt (real_of_int M)" using M(1) by simp
  show "D \<le> real_of_int T8 / 8 \<longleftrightarrow> E \<le> real_of_int T8 / 8"
  proof (cases "0 \<le> T8")
    case True
    have "D \<le> real_of_int T8 / 8 \<longleftrightarrow> fl (sqrt (real_of_int M)) \<le> real_of_int T8"
      by (simp add: D)
    also have "\<dots> \<longleftrightarrow> M \<le> T8\<^sup>2" using M True by (rule fl_sqrt_le_iff)
    also have "\<dots> \<longleftrightarrow> real_of_int M \<le> (real_of_int T8)\<^sup>2"
      by (metis of_int_le_iff of_int_power)
    also have "\<dots> \<longleftrightarrow> sqrt (real_of_int M) \<le> real_of_int T8"
      using True by (metis real_sqrt_le_iff real_sqrt_abs abs_of_nonneg of_int_0_le_iff)
    also have "\<dots> \<longleftrightarrow> E \<le> real_of_int T8 / 8" by (simp add: E)
    finally show ?thesis .
  next
    case False
    then have neg: "real_of_int T8 < 0" by simp
    have "\<not> D \<le> real_of_int T8 / 8" unfolding D using f0 neg by linarith
    moreover have "\<not> E \<le> real_of_int T8 / 8" unfolding E using s0 neg by linarith
    ultimately show ?thesis by simp
  qed
  show "D < real_of_int T8 / 8 \<longleftrightarrow> E < real_of_int T8 / 8"
  proof (cases "0 \<le> T8")
    case True
    have "D < real_of_int T8 / 8 \<longleftrightarrow> fl (sqrt (real_of_int M)) < real_of_int T8"
      by (simp add: D)
    also have "\<dots> \<longleftrightarrow> M < T8\<^sup>2" using M True by (rule fl_sqrt_less_iff)
    also have "\<dots> \<longleftrightarrow> real_of_int M < (real_of_int T8)\<^sup>2"
      by (metis of_int_less_iff of_int_power)
    also have "\<dots> \<longleftrightarrow> sqrt (real_of_int M) < real_of_int T8"
      using True by (metis real_sqrt_less_iff real_sqrt_abs abs_of_nonneg of_int_0_le_iff)
    also have "\<dots> \<longleftrightarrow> E < real_of_int T8 / 8" by (simp add: E)
    finally show ?thesis .
  next
    case False
    then have neg: "real_of_int T8 < 0" by simp
    have "\<not> D < real_of_int T8 / 8" unfolding D using f0 neg by linarith
    moreover have "\<not> E < real_of_int T8 / 8" unfolding E using s0 neg by linarith
    ultimately show ?thesis by simp
  qed
qed

section \<open>The two matching loops\<close>

lemma MAX_ITERATIONS_iff: "real n > MAX_ITERATIONS \<longleftrightarrow> n > 45000000"
proof -
  have "MAX_ITERATIONS = real 45000000"
    by (simp add: MAX_ITERATIONS_def MAX_TOTAL_IMAGE_PIXELS_def)
  then show ?thesis using of_nat_less_iff [of 45000000 n, where ?'a = real] by presburger
qed

lemma MAX_ITERATIONS_iff1: "MAX_ITERATIONS < 1 + real n \<longleftrightarrow> 45000000 \<le> n"
proof -
  have "(44999999 < n) = (45000000 \<le> n)" by linarith
  then show ?thesis using MAX_ITERATIONS_iff [of "n + 1"] by (simp add: add.commute)
qed

lemma ls_data_pixelBody:
  "ls_data (pixelBody onProgress avgBg i st) =
     (if num_less (calculateRgbDistance
                     (rd (ls_data st) i, rd (ls_data st) (i + 1), rd (ls_data st) (i + 2)) avgBg)
           colorMatchTolerance
      then (ls_data st)[i + 3 := 0] else ls_data st)"
  by (simp add: pixelBody_def Let_def)

lemma iterations_pixelBody: "iterations (pixelBody onProgress avgBg i st) = iterations st"
  by (simp add: pixelBody_def Let_def)

lemma length_pixelBody: "length (ls_data (pixelBody onProgress avgBg i st)) = length (ls_data st)"
  by (simp add: ls_data_pixelBody)

lemma pixelLoop_step:
  "i < length (ls_data st) \<Longrightarrow> iterations st < 45000000 \<Longrightarrow>
   pixelLoop onProgress avgBg i st =
     pixelLoop onProgress avgBg (i + 4)
       (pixelBody onProgress avgBg i (st\<lparr>iterations := iterations st + 1\<rparr>))"
  by (subst pixelLoop.simps) (simp add: Let_def MAX_ITERATIONS_iff1)

lemma pixelLoop_abort:
  "i < length (ls_data st) \<Longrightarrow> iterations st \<ge> 45000000 \<Longrightarrow>
   pixelLoop onProgress avgBg i st = (Some ProcessingTimeout, st\<lparr>iterations := iterations st + 1\<rparr>)"
  by (subst pixelLoop.simps) (simp add: Let_def MAX_ITERATIONS_iff1)

lemma pixelLoop_done:
  "\<not> i < length (ls_data st) \<Longrightarrow> pixelLoop onProgress avgBg i st = (None, st)"
  by (subst pixelLoop.simps) simp


lemma pixelLoop_outcome:
  "iterations st \<le> 45000000 \<Longrightarrow>
   fst (pixelLoop onProgress avgBg i st) =
     (if iterations st + (length (ls_data st) + 3 - i) div 4 > 45000000
      then Some ProcessingTimeout else None)"
proof (induction onProgress avgBg i st rule: pixelLoop.induct)
  case (1 onProgress avgBg i st)
  show ?case
  proof (cases "i < length (ls_data st)")
    case False
    then have "(length (ls_data st) + 3 - i) div 4 = 0" by simp
    then show ?thesis using False "1.prems" by (simp add: pixelLoop_done)
  next
    case True
    define k where "k = length (ls_data st) - (i + 1)"
    have k: "length (ls_data st) = i + 1 + k" using True by (simp add: k_def)
    have r: "(length (ls_data st) + 3 - i) div 4 = Suc ((length (ls_data st) + 3 - (i + 4)) div 4)"
      unfolding k by simp
    show ?thesis
    proof (cases "iterations st < 45000000")
      case False
      then show ?thesis using True "1.prems" by (simp add: pixelLoop_abort r)
    next
      case lt: True
      let ?st1 = "st\<lparr>iterations := iterations st + 1\<rparr>"
      have "fst (pixelLoop onProgress avgBg (i + 4) (pixelBody onProgress avgBg i ?st1)) =
        (if iterations (pixelBody onProgress avgBg i ?st1)
              + (length (ls_data (pixelBody onProgress avgBg i ?st1)) + 3 - (i + 4)) div 4 > 45000000
         then Some ProcessingTimeout else None)"
        using lt True by (intro "1.IH") (simp_all add: MAX_ITERATIONS_iff1 iterations_pixelBody)
      then show ?thesis using lt True
        by (simp add: pixelLoop_step iterations_pixelBody length_pixelBody r)
    qed
  qed
qed


lemma rd_list_update: "m \<noteq> n \<Longrightarrow> rd (d[n := v]) m = rd d m"
  by (simp add: rd_def)

lemma pixelLoop_length:
  "length (ls_data (snd (pixelLoop onProgress avgBg i st))) = length (ls_data st)"
proof (induction onProgress avgBg i st rule: pixelLoop.induct)
  case (1 onProgress avgBg i st)
  show ?case
  proof (cases "i < length (ls_data st)")
    case False
    then show ?thesis by (simp add: pixelLoop_done)
  next
    case True
    show ?thesis
    proof (cases "iterations st < 45000000")
      case False
      then show ?thesis using True by (simp add: pixelLoop_abort)
    next
      case lt: True
      let ?st1 = "st\<lparr>iterations := iterations st + 1\<rparr>"
      have "length (ls_data (snd (pixelLoop onProgress avgBg (i + 4)
                (pixelBody onProgress avgBg i ?st1))))
            = length (ls_data (pixelBody onProgress avgBg i ?st1))"
        using lt True by (intro "1.IH") (simp_all add: MAX_ITERATIONS_iff1)
      then show ?thesis using lt True by (simp add: pixelLoop_step length_pixelBody)
    qed
  qed
qed

lemma pixelLoop_nth:
  "iterations st + (length (ls_data st) + 3 - i) div 4 \<le> 45000000 \<Longrightarrow>
   j < length (ls_data st) \<Longrightarrow>
   ls_data (snd (pixelLoop onProgress avgBg i st)) ! j =
     (if i + 3 \<le> j \<and> (j - i) mod 4 = 3
         \<and> num_less (calculateRgbDistance
                        (rd (ls_data st) (j - 3), rd (ls_data st) (j - 2), rd (ls_data st) (j - 1))
                        avgBg) colorMatchTolerance
      then 0 else ls_data st ! j)"
proof (induction onProgress avgBg i st rule: pixelLoop.induct)
  case (1 onProgress avgBg i st)
  define d where "d = ls_data st"
  show ?case
  proof (cases "i < length (ls_data st)")
    case False
    then show ?thesis using "1.prems" by (simp add: pixelLoop_done)
  next
    case True
    define k where "k = length (ls_data st) - (i + 1)"
    have k: "length (ls_data st) = i + 1 + k" using True by (simp add: k_def)
    have r: "(length (ls_data st) + 3 - i) div 4 = Suc ((length (ls_data st) + 3 - (i + 4)) div 4)"
      unfolding k by simp
    have lt: "iterations st < 45000000" using "1.prems"(1) unfolding r by simp
    define st' where "st' = pixelBody onProgress avgBg i (st\<lparr>iterations := iterations st + 1\<rparr>)"
    define M where "M = num_less (calculateRgbDistance (rd d i, rd d (i + 1), rd d (i + 2)) avgBg)
                          colorMatchTolerance"
    have d': "ls_data st' = (if M then d[i + 3 := 0] else d)"
      unfolding st'_def by (simp add: ls_data_pixelBody M_def d_def)
    have rd': "rd (ls_data st') m = rd d m" if "m \<noteq> i + 3" for m
      using that unfolding d' by (simp add: rd_list_update)
    have nth': "ls_data st' ! m = d ! m" if "m \<noteq> i + 3" for m
      using that unfolding d' by simp
    have IH: "ls_data (snd (pixelLoop onProgress avgBg (i + 4) st')) ! j =
       (if i + 4 + 3 \<le> j \<and> (j - (i + 4)) mod 4 = 3
           \<and> num_less (calculateRgbDistance
                        (rd (ls_data st') (j - 3), rd (ls_data st') (j - 2), rd (ls_data st') (j - 1))
                        avgBg) colorMatchTolerance
        then 0 else ls_data st' ! j)"
      unfolding st'_def using lt True "1.prems" unfolding r
      by (intro "1.IH") (simp_all add: MAX_ITERATIONS_iff1 iterations_pixelBody length_pixelBody)
    have step: "pixelLoop onProgress avgBg i st = pixelLoop onProgress avgBg (i + 4) st'"
      unfolding st'_def using lt True by (simp add: pixelLoop_step)
    consider "j < i + 3" | "j = i + 3" | "i + 4 \<le> j" "j < i + 7" | "i + 7 \<le> j" by linarith
    then show ?thesis
    proof cases
      case 1
      then have "j \<noteq> i + 3" by simp
      then show ?thesis using 1 unfolding step IH by (simp add: nth' d_def)
    next
      case 2
      then show ?thesis using "1.prems"(2) unfolding step IH
        by (simp add: d' M_def d_def)
    next
      case 3
      define n where "n = j - (i + 4)"
      have n: "j = i + 4 + n" "n < 3" using 3 by (simp_all add: n_def)
      then have m: "(j - i) mod 4 = n" by simp
      have "j \<noteq> i + 3" using 3 by simp
      then show ?thesis using n 3 unfolding step IH m by (simp add: nth' d_def)
    next
      case 4
      define n where "n = j - (i + 7)"
      have n: "j = i + 7 + n" using 4 by (simp add: n_def)
      have "j - i = 7 + n" "j - (i + 4) = 3 + n" unfolding n by simp_all
      moreover have "(7 + n) mod 4 = (3 + n) mod 4" by presburger
      ultimately have a: "(j - i) mod 4 = (j - (i + 4)) mod 4" by simp
      have b: "j - 3 \<noteq> i + 3" "j - 2 \<noteq> i + 3" "j - 1 \<noteq> i + 3" "j \<noteq> i + 3"
        unfolding n by simp_all
      show ?thesis using 4 unfolding step IH a rd' [OF b(1)] rd' [OF b(2)] rd' [OF b(3)] nth' [OF b(4)]
        by (simp add: d_def)
    qed
  qed
qed


lemma ms_data_matchBody:
  "ms_data (matchBody targetRgb tolerance onProgress i st) =
     (if num_le (calculateRgbDistance
                   (rd (ms_data st) i, rd (ms_data st) (i + 1), rd (ms_data st) (i + 2)) targetRgb)
           tolerance
      then (ms_data st)[i + 3 := 0] else ms_data st)"
  by (simp add: matchBody_def Let_def)

lemma length_matchBody:
  "length (ms_data (matchBody targetRgb tolerance onProgress i st)) = length (ms_data st)"
  by (simp add: ms_data_matchBody)

lemma matchLoop_step:
  "i < length (ms_data st) \<Longrightarrow>
   matchLoop targetRgb tolerance onProgress i st =
     matchLoop targetRgb tolerance onProgress (i + 4) (matchBody targetRgb tolerance onProgress i st)"
  by (subst matchLoop.simps) simp

lemma matchLoop_done:
  "\<not> i < length (ms_data st) \<Longrightarrow> matchLoop targetRgb tolerance onProgress i st = st"
  by (subst matchLoop.simps) simp

lemma matchLoop_length:
  "length (ms_data (matchLoop targetRgb tolerance onProgress i st)) = length (ms_data st)"
proof (induction targetRgb tolerance onProgress i st rule: matchLoop.induct)
  case (1 targetRgb tolerance onProgress i st)
  show ?case
  proof (cases "i < length (ms_data st)")
    case False
    then show ?thesis by (simp add: matchLoop_done)
  next
    case True
    then show ?thesis using "1.IH" by (simp add: matchLoop_step length_matchBody)
  qed
qed

lemma matchLoop_nth:
  "j < length (ms_data st) \<Longrightarrow>
   ms_data (matchLoop targetRgb tolerance onProgress i st) ! j =
     (if i + 3 \<le> j \<and> (j - i) mod 4 = 3
         \<and> num_le (calculateRgbDistance
                      (rd (ms_data st) (j - 3), rd (ms_data st) (j - 2), rd (ms_data st) (j - 1))
                      targetRgb) tolerance
      then 0 else ms_data st ! j)"
proof (induction targetRgb tolerance onProgress i st rule: matchLoop.induct)
  case (1 targetRgb tolerance onProgress i st)
  define d where "d = ms_data st"
  show ?case
  proof (cases "i < length (ms_data st)")
    case False
    then show ?thesis using "1.prems" by (simp add: matchLoop_done)
  next
    case True
    define st' where "st' = matchBody targetRgb tolerance onProgress i st"
    define M where "M = num_le (calculateRgbDistance (rd d i, rd d (i + 1), rd d (i + 2)) targetRgb)
                          tolerance"
    have d': "ms_data st' = (if M then d[i + 3 := 0] else d)"
      unfolding st'_def by (simp add: ms_data_matchBody M_def d_def)
    have rd': "rd (ms_data st') m = rd d m" if "m \<noteq> i + 3" for m
      using that unfolding d' by (simp add: rd_list_update)
    have nth': "ms_data st' ! m = d ! m" if "m \<noteq> i + 3" for m
      using that unfolding d' by simp
    have IH: "ms_data (matchLoop targetRgb tolerance onProgress (i + 4) st') ! j =
       (if i + 4 + 3 \<le> j \<and> (j - (i + 4)) mod 4 = 3
           \<and> num_le (calculateRgbDistance
                        (rd (ms_data st') (j - 3), rd (ms_data st') (j - 2), rd (ms_data st') (j - 1))
                        targetRgb) tolerance
        then 0 else ms_data st' ! j)"
      unfolding st'_def using True "1.prems"
      by (intro "1.IH") (simp_all add: length_matchBody)
    have step: "matchLoop targetRgb tolerance onProgress i st
                = matchLoop targetRgb tolerance onProgress (i + 4) st'"
      unfolding st'_def using True by (simp add: matchLoop_step)
    consider "j < i + 3" | "j = i + 3" | "i + 4 \<le> j" "j < i + 7" | "i + 7 \<le> j" by linarith
    then show ?thesis
    proof cases
      case 1
      then have "j \<noteq> i + 3" by simp
      then show ?thesis using 1 unfolding step IH by (simp add: nth' d_def)
    next
      case 2
      then show ?thesis using "1.prems" unfolding step IH
        by (simp add: d' M_def d_def)
    next
      case 3
      define n where "n = j - (i + 4)"
      have n: "j = i + 4 + n" "n < 3" using 3 by (simp_all add: n_def)
      then have m: "(j - i) mod 4 = n" by simp
      have "j \<noteq> i + 3" using 3 by simp
      then show ?thesis using n 3 unfolding step IH m by (simp add: nth' d_def)
    next
      case 4
      define n where "n = j - (i + 7)"
      have n: "j = i + 7 + n" using 4 by (simp add: n_def)
      have "j - i = 7 + n" "j - (i + 4) = 3 + n" unfolding n by simp_all
      moreover have "(7 + n) mod 4 = (3 + n) mod 4" by presburger
      ultimately have a: "(j - i) mod 4 = (j - (i + 4)) mod 4" by simp
      have b: "j - 3 \<noteq> i + 3" "j - 2 \<noteq> i + 3" "j - 1 \<noteq> i + 3" "j \<noteq> i + 3"
        unfolding n by simp_all
      show ?thesis using 4 unfolding step IH a rd' [OF b(1)] rd' [OF b(2)] rd' [OF b(3)] nth' [OF b(4)]
        by (simp add: d_def)
    qed
  qed
qed

lemma fst_manipulateAlphaByColorMatch:
  "fst (manipulateAlphaByColorMatch data targetRgb tolerance onProgress)
   = ms_data (matchLoop targetRgb tolerance onProgress 0
                \<lparr>ms_data = data, lastReportedProgress = - 1, delivered = []\<rparr>)"
  by (simp add: manipulateAlphaByColorMatch_def Let_def)


lemma calculateRgbDistance_Some:
  "calculateRgbDistance (Some a, Some b, Some c) (Some x, Some y, Some z)
   = Some (js_sqrt (js_add (js_add (js_pow2 (js_sub a x)) (js_pow2 (js_sub b y)))
                           (js_pow2 (js_sub c z))))"
  by (simp add: calculateRgbDistance_def num1_def num2_def)

lemma rd_Some: "i < length d \<Longrightarrow> rd d i = Some (byte_value (d ! i))"
  by (simp add: rd_def)

lemma sqrt_less_iff: "0 \<le> t \<Longrightarrow> sqrt x < t \<longleftrightarrow> x < t ^ 2"
  by (metis real_sqrt_less_iff real_sqrt_abs abs_of_nonneg)

lemma sqrt_le_iff: "0 \<le> t \<Longrightarrow> sqrt x \<le> t \<longleftrightarrow> x \<le> t ^ 2"
  by (metis real_sqrt_le_iff real_sqrt_abs abs_of_nonneg)

text \<open>The rounded square root of a numeral against a numeral, for evaluation.\<close>

lemma fl_sqrt_le_numeral:
  "numeral n \<le> (16777216 :: int) \<Longrightarrow>
   fl (sqrt (numeral n)) \<le> numeral t \<longleftrightarrow> (numeral n :: int) \<le> (numeral t)\<^sup>2"
  using fl_sqrt_le_iff [of "numeral n" "numeral t"] by simp

lemma fl_sqrt_less_numeral:
  "numeral n \<le> (16777216 :: int) \<Longrightarrow>
   fl (sqrt (numeral n)) < numeral t \<longleftrightarrow> (numeral n :: int) < (numeral t)\<^sup>2"
  using fl_sqrt_less_iff [of "numeral n" "numeral t"] by simp

lemmas js_simps =
  js_add_def js_sub_def js_mul_def js_div_def js_sqrt_def js_pow2_def
  fl_numeral fl_neg_numeral fl_sqrt_le_numeral fl_sqrt_less_numeral

text \<open>
  A byte against a target of eighths: the test of either loop comes out as for the
  Euclidean distance.
\<close>

lemma byte_distance_compare:
  fixes tr tg tb tol :: real and wr wg wb :: byte
  assumes "8 * tr \<in> \<int>" "8 * tg \<in> \<int>" "8 * tb \<in> \<int>"
    and "0 \<le> tr" "tr \<le> 255" "0 \<le> tg" "tg \<le> 255" "0 \<le> tb" "tb \<le> 255"
    and "8 * tol \<in> \<int>"
  defines "D \<equiv> js_sqrt (js_add (js_add (js_pow2 (js_sub (byte_value wr) tr))
                                        (js_pow2 (js_sub (byte_value wg) tg)))
                                (js_pow2 (js_sub (byte_value wb) tb)))"
  defines "E \<equiv> sqrt ((byte_value wr - tr)\<^sup>2 + (byte_value wg - tg)\<^sup>2 + (byte_value wb - tb)\<^sup>2)"
  shows "D \<le> tol \<longleftrightarrow> E \<le> tol" and "D < tol \<longleftrightarrow> E < tol"
proof -
  from assms(1) obtain kr :: int where kr: "8 * tr = real_of_int kr" by (elim Ints_cases)
  from assms(2) obtain kg :: int where kg: "8 * tg = real_of_int kg" by (elim Ints_cases)
  from assms(3) obtain kb :: int where kb: "8 * tb = real_of_int kb" by (elim Ints_cases)
  from assms(10) obtain T8 :: int where T8: "8 * tol = real_of_int T8" by (elim Ints_cases)
  have t: "tr = real_of_int kr / 8" "tg = real_of_int kg / 8" "tb = real_of_int kb / 8"
    "tol = real_of_int T8 / 8"
    using kr kg kb T8 by simp_all
  have k: "0 \<le> kr" "kr \<le> 2040" "0 \<le> kg" "kg \<le> 2040" "0 \<le> kb" "kb \<le> 2040"
    using assms(4-9) unfolding t by simp_all
  have byte: "0 \<le> int (unat w) \<and> int (unat w) \<le> 255" for w :: byte
  proof -
    have "0 \<le> real_of_int (int (unat w)) \<and> real_of_int (int (unat w)) \<le> 255"
      using byte_value_bounds [of w] unfolding byte_value_int .
    then show ?thesis by linarith
  qed
  have m: "\<bar>8 * int (unat wr) - kr\<bar> \<le> 2040" "\<bar>8 * int (unat wg) - kg\<bar> \<le> 2040"
    "\<bar>8 * int (unat wb) - kb\<bar> \<le> 2040"
    using byte [of wr] byte [of wg] byte [of wb] k by linarith+
  show "D \<le> tol \<longleftrightarrow> E \<le> tol"
    unfolding D_def E_def byte_value_int t by (rule distance_eighths_compare(1) [OF m])
  show "D < tol \<longleftrightarrow> E < tol"
    unfolding D_def E_def byte_value_int t by (rule distance_eighths_compare(2) [OF m])
qed

text \<open>
  Claim C1, amended. Let the target colour have its channels from 0 to 255, none of them
  positive and below \<open>2 powr -500\<close>, where a square would underflow. After either
  matching pass, the red, green and blue bytes of every pixel and the length of the data
  are as before, and the alpha byte of a pixel is 0 when the pixel matches and is its
  former value otherwise. In \<open>manipulateAlphaByColorMatch\<close> a pixel matches when its
  distance to the target is at most the tolerance; in the loop of \<open>removeBackground\<close>,
  whose tolerance is 45 and which runs to its end on up to 180,000,000 bytes, when the
  distance is strictly less. The distance is the one that doubles compute, which lies
  within the relative error \<open>2 powr -50\<close> of the Euclidean distance. When the target is a
  whole number of eighths in each channel, as the mean of eight bytes and its rounded
  value are, the test against 45, and the test against any tolerance that is a whole
  number of eighths, come out as they do for the Euclidean distance.
\<close>

theorem alpha_matching_pass:
  "4 * p + 3 < length data
     \<and> (tr = 0 \<or> 1 / 2 ^ 500 \<le> tr) \<and> tr \<le> 255
     \<and> (tg = 0 \<or> 1 / 2 ^ 500 \<le> tg) \<and> tg \<le> 255
     \<and> (tb = 0 \<or> 1 / 2 ^ 500 \<le> tb) \<and> tb \<le> 255 \<longrightarrow>
   (let r = byte_value (data ! (4 * p));
        g = byte_value (data ! (4 * p + 1));
        b = byte_value (data ! (4 * p + 2));
        euclid = sqrt ((r - tr)\<^sup>2 + (g - tg)\<^sup>2 + (b - tb)\<^sup>2);
        dist = js_sqrt (js_add (js_add (js_pow2 (js_sub r tr)) (js_pow2 (js_sub g tg)))
                               (js_pow2 (js_sub b tb)));
        out = fst (manipulateAlphaByColorMatch data (Some tr, Some tg, Some tb) tolerance onProgress);
        run = pixelLoop onProgress (Some tr, Some tg, Some tb) 0
                \<lparr>ls_data = data, lastReportedPixelProgress = 30, iterations = 0, reported = evs\<rparr>
    in length out = length data
       \<and> out ! (4 * p) = data ! (4 * p)
       \<and> out ! (4 * p + 1) = data ! (4 * p + 1)
       \<and> out ! (4 * p + 2) = data ! (4 * p + 2)
       \<and> out ! (4 * p + 3) = (if dist \<le> tolerance then 0 else data ! (4 * p + 3))
       \<and> (length data \<le> 180000000 \<longrightarrow>
            fst run = None
            \<and> length (ls_data (snd run)) = length data
            \<and> ls_data (snd run) ! (4 * p) = data ! (4 * p)
            \<and> ls_data (snd run) ! (4 * p + 1) = data ! (4 * p + 1)
            \<and> ls_data (snd run) ! (4 * p + 2) = data ! (4 * p + 2)
            \<and> ls_data (snd run) ! (4 * p + 3) = (if dist < 45 then 0 else data ! (4 * p + 3)))
       \<and> (1 - 1 / 2 ^ 50) * euclid \<le> dist \<and> dist \<le> (1 + 1 / 2 ^ 50) * euclid
       \<and> (8 * tr \<in> \<int> \<and> 8 * tg \<in> \<int> \<and> 8 * tb \<in> \<int> \<longrightarrow>
            (dist < 45 \<longleftrightarrow> euclid < 45)
            \<and> (8 * tolerance \<in> \<int> \<longrightarrow> (dist \<le> tolerance \<longleftrightarrow> euclid \<le> tolerance))))"
proof (intro impI)
  assume H: "4 * p + 3 < length data
     \<and> (tr = 0 \<or> 1 / 2 ^ 500 \<le> tr) \<and> tr \<le> 255
     \<and> (tg = 0 \<or> 1 / 2 ^ 500 \<le> tg) \<and> tg \<le> 255
     \<and> (tb = 0 \<or> 1 / 2 ^ 500 \<le> tb) \<and> tb \<le> 255"
  then have p: "4 * p + 3 < length data" by blast
  have range: "0 \<le> tr" "tr \<le> 255" "0 \<le> tg" "tg \<le> 255" "0 \<le> tb" "tb \<le> 255"
  proof -
    have "0 \<le> t" if "t = 0 \<or> 1 / 2 ^ 500 \<le> t" for t :: real
    proof -
      have "(0 :: real) \<le> 1 / 2 ^ 500" by simp
      with that show ?thesis by linarith
    qed
    with H show "0 \<le> tr" "tr \<le> 255" "0 \<le> tg" "tg \<le> 255" "0 \<le> tb" "tb \<le> 255"
      by blast+
  qed
  define r where "r = byte_value (data ! (4 * p))"
  define g where "g = byte_value (data ! (4 * p + 1))"
  define b where "b = byte_value (data ! (4 * p + 2))"
  define euclid where "euclid = sqrt ((r - tr)\<^sup>2 + (g - tg)\<^sup>2 + (b - tb)\<^sup>2)"
  define dist where "dist = js_sqrt (js_add (js_add (js_pow2 (js_sub r tr)) (js_pow2 (js_sub g tg)))
                               (js_pow2 (js_sub b tb)))"
  define st0 where "st0 = \<lparr>ls_data = data, lastReportedPixelProgress = 30, iterations = 0, reported = evs\<rparr>"
  define ms0 where "ms0 = \<lparr>ms_data = data, lastReportedProgress = - 1, delivered = []\<rparr>"
  define tgt where "tgt = (Some tr, Some tg, Some tb)"
  have d0 [simp]: "ls_data st0 = data" "iterations st0 = 0" "ms_data ms0 = data"
    by (simp_all add: st0_def ms0_def)
  have dd: "calculateRgbDistance (rd data (4 * p), rd data (4 * p + 1), rd data (4 * p + 2)) tgt
            = Some dist"
    using p by (simp add: rd_Some tgt_def calculateRgbDistance_Some dist_def r_def g_def b_def)
  have m: "(4 * p + n) mod 4 = n" if "n < 4" for n using that by simp
  have sub: "4 * p + 3 - 3 = 4 * p" "4 * p + 3 - 2 = 4 * p + 1" "4 * p + 3 - 1 = 4 * p + 2"
    by simp_all
  \<comment> \<open>the utility\<close>
  have u_len: "length (ms_data (matchLoop tgt tolerance onProgress 0 ms0)) = length data"
    by (simp add: matchLoop_length)
  have u_rgb: "ms_data (matchLoop tgt tolerance onProgress 0 ms0) ! (4 * p + n) = data ! (4 * p + n)"
    if "n < 3" for n
    using that p m [of n] matchLoop_nth [of "4 * p + n" ms0 tgt tolerance onProgress 0] by simp
  have u_a: "ms_data (matchLoop tgt tolerance onProgress 0 ms0) ! (4 * p + 3)
             = (if dist \<le> tolerance then 0 else data ! (4 * p + 3))"
  proof -
    have "ms_data (matchLoop tgt tolerance onProgress 0 ms0) ! (4 * p + 3) =
       (if 0 + 3 \<le> 4 * p + 3 \<and> (4 * p + 3 - 0) mod 4 = 3
           \<and> num_le (calculateRgbDistance
                        (rd (ms_data ms0) (4 * p + 3 - 3), rd (ms_data ms0) (4 * p + 3 - 2),
                         rd (ms_data ms0) (4 * p + 3 - 1)) tgt) tolerance
        then 0 else ms_data ms0 ! (4 * p + 3))"
      using p by (intro matchLoop_nth) simp
    then show ?thesis unfolding sub d0 dd num_le_def by (simp add: m)
  qed
  \<comment> \<open>the inline loop\<close>
  have i_all: "fst (pixelLoop onProgress tgt 0 st0) = None
      \<and> length (ls_data (snd (pixelLoop onProgress tgt 0 st0))) = length data
      \<and> ls_data (snd (pixelLoop onProgress tgt 0 st0)) ! (4 * p) = data ! (4 * p)
      \<and> ls_data (snd (pixelLoop onProgress tgt 0 st0)) ! (4 * p + 1) = data ! (4 * p + 1)
      \<and> ls_data (snd (pixelLoop onProgress tgt 0 st0)) ! (4 * p + 2) = data ! (4 * p + 2)
      \<and> ls_data (snd (pixelLoop onProgress tgt 0 st0)) ! (4 * p + 3)
          = (if dist < 45 then 0 else data ! (4 * p + 3))"
    if len: "length data \<le> 180000000"
  proof -
    have it: "iterations st0 + (length (ls_data st0) + 3 - 0) div 4 \<le> 45000000"
      using len by simp
    have a: "fst (pixelLoop onProgress tgt 0 st0) = None"
      using pixelLoop_outcome [of st0 onProgress tgt 0] it by simp
    have rgb: "ls_data (snd (pixelLoop onProgress tgt 0 st0)) ! (4 * p + n) = data ! (4 * p + n)"
      if "n < 3" for n
      using that p m [of n] pixelLoop_nth [OF it, of "4 * p + n" onProgress tgt] by simp
    have al: "ls_data (snd (pixelLoop onProgress tgt 0 st0)) ! (4 * p + 3)
             = (if dist < 45 then 0 else data ! (4 * p + 3))"
    proof -
      have "ls_data (snd (pixelLoop onProgress tgt 0 st0)) ! (4 * p + 3) =
         (if 0 + 3 \<le> 4 * p + 3 \<and> (4 * p + 3 - 0) mod 4 = 3
             \<and> num_less (calculateRgbDistance
                          (rd (ls_data st0) (4 * p + 3 - 3), rd (ls_data st0) (4 * p + 3 - 2),
                           rd (ls_data st0) (4 * p + 3 - 1)) tgt) colorMatchTolerance
          then 0 else ls_data st0 ! (4 * p + 3))"
        using p it by (intro pixelLoop_nth) simp_all
      then show ?thesis unfolding sub d0 dd num_less_def colorMatchTolerance_def by (simp add: m)
    qed
    show ?thesis using a rgb [of 0] rgb [of 1] rgb [of 2] al
      by (simp add: pixelLoop_length)
  qed
  \<comment> \<open>the distance\<close>
  have rel: "(1 - 1 / 2 ^ 50) * euclid \<le> dist" "dist \<le> (1 + 1 / 2 ^ 50) * euclid"
    unfolding euclid_def dist_def by (rule distance_relative_error)+
  have exact: "(dist < 45 \<longleftrightarrow> euclid < 45)
            \<and> (8 * tolerance \<in> \<int> \<longrightarrow> (dist \<le> tolerance \<longleftrightarrow> euclid \<le> tolerance))"
    if t: "8 * tr \<in> \<int> \<and> 8 * tg \<in> \<int> \<and> 8 * tb \<in> \<int>"
  proof -
    have t': "8 * tr \<in> \<int>" "8 * tg \<in> \<int>" "8 * tb \<in> \<int>"
      "0 \<le> tr" "tr \<le> 255" "0 \<le> tg" "tg \<le> 255" "0 \<le> tb" "tb \<le> 255"
      using t range by simp_all
    have "8 * (45 :: real) \<in> \<int>" by simp
    from byte_distance_compare(2) [OF t' this]
    have a: "dist < 45 \<longleftrightarrow> euclid < 45" unfolding dist_def euclid_def r_def g_def b_def .
    have b: "dist \<le> tolerance \<longleftrightarrow> euclid \<le> tolerance" if "8 * tolerance \<in> \<int>"
      using byte_distance_compare(1) [OF t' that]
      unfolding dist_def euclid_def r_def g_def b_def .
    show ?thesis using a b by blast
  qed
  show "let r = byte_value (data ! (4 * p));
        g = byte_value (data ! (4 * p + 1));
        b = byte_value (data ! (4 * p + 2));
        euclid = sqrt ((r - tr)\<^sup>2 + (g - tg)\<^sup>2 + (b - tb)\<^sup>2);
        dist = js_sqrt (js_add (js_add (js_pow2 (js_sub r tr)) (js_pow2 (js_sub g tg)))
                               (js_pow2 (js_sub b tb)));
        out = fst (manipulateAlphaByColorMatch data (Some tr, Some tg, Some tb) tolerance onProgress);
        run = pixelLoop onProgress (Some tr, Some tg, Some tb) 0
                \<lparr>ls_data = data, lastReportedPixelProgress = 30, iterations = 0, reported = evs\<rparr>
    in length out = length data
       \<and> out ! (4 * p) = data ! (4 * p)
       \<and> out ! (4 * p + 1) = data ! (4 * p + 1)
       \<and> out ! (4 * p + 2) = data ! (4 * p + 2)
       \<and> out ! (4 * p + 3) = (if dist \<le> tolerance then 0 else data ! (4 * p + 3))
       \<and> (length data \<le> 180000000 \<longrightarrow>
            fst run = None
            \<and> length (ls_data (snd run)) = length data
            \<and> ls_data (snd run) ! (4 * p) = data ! (4 * p)
            \<and> ls_data (snd run) ! (4 * p + 1) = data ! (4 * p + 1)
            \<and> ls_data (snd run) ! (4 * p + 2) = data ! (4 * p + 2)
            \<and> ls_data (snd run) ! (4 * p + 3) = (if dist < 45 then 0 else data ! (4 * p + 3)))
       \<and> (1 - 1 / 2 ^ 50) * euclid \<le> dist \<and> dist \<le> (1 + 1 / 2 ^ 50) * euclid
       \<and> (8 * tr \<in> \<int> \<and> 8 * tg \<in> \<int> \<and> 8 * tb \<in> \<int> \<longrightarrow>
            (dist < 45 \<longleftrightarrow> euclid < 45)
            \<and> (8 * tolerance \<in> \<int> \<longrightarrow> (dist \<le> tolerance \<longleftrightarrow> euclid \<le> tolerance)))"
    unfolding Let_def fst_manipulateAlphaByColorMatch
      r_def [symmetric] g_def [symmetric] b_def [symmetric]
      euclid_def [symmetric] dist_def [symmetric]
      st0_def [symmetric] ms0_def [symmetric] tgt_def [symmetric]
    using u_len u_rgb [of 0] u_rgb [of 1] u_rgb [of 2] u_a i_all rel exact
    by simp
qed

theorem alpha_matching_pass_witness:
  "fst (manipulateAlphaByColorMatch [10, 0, 0, 255] (Some 0, Some 0, Some 0) 45 False) ! 3 = 0
   \<and> fst (pixelLoop False (Some 0, Some 0, Some 0) 0
            \<lparr>ls_data = [10, 0, 0, 255], lastReportedPixelProgress = 30, iterations = 0,
             reported = []\<rparr>) = None
   \<and> ls_data (snd (pixelLoop False (Some 0, Some 0, Some 0) 0
            \<lparr>ls_data = [10, 0, 0, 255], lastReportedPixelProgress = 30, iterations = 0,
             reported = []\<rparr>)) ! 3 = 0
   \<and> fst (manipulateAlphaByColorMatch [100, 0, 0, 255] (Some 0, Some 0, Some 0) 45 False) ! 3 = 255"
  using alpha_matching_pass [of 0 "[10, 0, 0, 255]" 0 0 0 45 False "[]", unfolded mult_0_right add_0]
        alpha_matching_pass [of 0 "[100, 0, 0, 255]" 0 0 0 45 False "[]", unfolded mult_0_right add_0]
  by (simp add: Let_def byte_value_def sqrt_less_iff sqrt_le_iff)

text \<open>
  A pixel exactly at the tolerance is cleared by \<open>manipulateAlphaByColorMatch\<close>; and a
  pixel far from the target whose alpha was 0 before the pass still has alpha 0 after it.
\<close>

theorem boundary_pixel_counterexample:
  "fst (manipulateAlphaByColorMatch [45, 0, 0, 255] (Some 0, Some 0, Some 0) 45 False) ! 3 = 0
   \<and> \<not> sqrt ((byte_value 45 - 0) ^ 2 + (byte_value 0 - 0) ^ 2 + (byte_value 0 - 0) ^ 2) < 45
   \<and> ls_data (snd (pixelLoop False (Some 0, Some 0, Some 0) 0
            \<lparr>ls_data = [255, 255, 255, 0], lastReportedPixelProgress = 30, iterations = 0,
             reported = []\<rparr>)) ! 3 = 0
   \<and> \<not> sqrt ((byte_value 255 - 0) ^ 2 + (byte_value 255 - 0) ^ 2 + (byte_value 255 - 0) ^ 2) < 45"
  by (simp add: manipulateAlphaByColorMatch_def matchLoop.simps matchBody_def pixelLoop.simps
        pixelBody_def MAX_ITERATIONS_def MAX_TOTAL_IMAGE_PIXELS_def colorMatchTolerance_def
        calculateRgbDistance_def rd_def byte_value_def num1_def num2_def num_le_def num_less_def
        Let_def sqrt_less_iff sqrt_le_iff js_simps)

text \<open>
  A tolerance need not be whole. With the tolerance \<open>Math.sqrt(3)\<close>, the double below the
  square root of 3, the pixel (1, 1, 1) is cleared against the target (0, 0, 0): its
  computed distance is that double, although its Euclidean distance is larger than the
  tolerance.
\<close>

lemma rounded_tolerance_example:
  "fst (manipulateAlphaByColorMatch [1, 1, 1, 255] (Some 0, Some 0, Some 0) (js_sqrt 3) False) ! 3 = 0
   \<and> js_sqrt 3 < sqrt ((byte_value 1 - 0)\<^sup>2 + (byte_value 1 - 0)\<^sup>2 + (byte_value 1 - 0)\<^sup>2)"
proof -
  have a: "1 \<le> sqrt 3" by simp
  have b: "sqrt 3 < 2" by (rule real_less_lsqrt) simp_all
  have c: "(7800463371553962 - 1 / 2) / 2 ^ 52 < sqrt 3"
    by (rule real_less_rsqrt) (simp add: power2_eq_square)
  have d: "sqrt 3 < (7800463371553962 + 1 / 2) / 2 ^ 52"
    by (rule real_less_lsqrt) (simp_all add: power2_eq_square)
  have v: "fl (sqrt 3) = 7800463371553962 / 2 ^ 52"
    using a b c d fl_eval_down [of "sqrt 3" 52 7800463371553962] by (simp add: field_simps)
  have "7800463371553962 / 2 ^ 52 < sqrt 3"
    by (rule real_less_rsqrt) (simp add: power2_eq_square)
  then have lt: "fl (sqrt 3) < sqrt 3" by (simp only: v)
  have run: "fst (manipulateAlphaByColorMatch [1, 1, 1, 255] (Some 0, Some 0, Some 0)
                    (fl (sqrt 3)) False) ! 3 = 0"
    by (simp add: manipulateAlphaByColorMatch_def matchLoop.simps matchBody_def
          calculateRgbDistance_def rd_def byte_value_def num1_def num2_def num_le_def
          Let_def js_add_def js_sub_def js_pow2_def js_sqrt_def fl_numeral)
  show ?thesis using run lt by (simp add: js_sqrt_def byte_value_def)
qed

text \<open>
  Claim C9, amended. The loop of \<open>removeBackground\<close> throws the timeout error exactly
  when the pixel count of the data exceeds 1.5 times 30,000,000 and runs to its end
  otherwise. \<open>manipulateAlphaByColorMatch\<close> has no ceiling: on data of any length it
  returns data of the same length in which every complete pixel has been treated.
\<close>

theorem iteration_ceiling:
  "fst (pixelLoop onProgress avgBg 0
          \<lparr>ls_data = data, lastReportedPixelProgress = 30, iterations = 0, reported = evs\<rparr>)
     = (if real (length data) / 4 > 1.5 * real MAX_TOTAL_IMAGE_PIXELS
        then Some ProcessingTimeout else None)
   \<and> length (fst (manipulateAlphaByColorMatch data targetRgb tolerance onProgress)) = length data
   \<and> (4 * p + 3 < length data \<longrightarrow>
        fst (manipulateAlphaByColorMatch data targetRgb tolerance onProgress) ! (4 * p + 3)
        = (if num_le (calculateRgbDistance
                        (rd data (4 * p), rd data (4 * p + 1), rd data (4 * p + 2)) targetRgb)
                tolerance
           then 0 else data ! (4 * p + 3)))"
proof -
  define st0 where "st0 = \<lparr>ls_data = data, lastReportedPixelProgress = 30, iterations = 0, reported = evs\<rparr>"
  define ms0 where "ms0 = \<lparr>ms_data = data, lastReportedProgress = - 1, delivered = []\<rparr>"
  have d0: "ls_data st0 = data" "iterations st0 = 0" "ms_data ms0 = data"
    by (simp_all add: st0_def ms0_def)
  have c: "(real (length data) / 4 > 1.5 * real MAX_TOTAL_IMAGE_PIXELS)
           \<longleftrightarrow> 45000000 < (length data + 3) div 4"
  proof -
    have "(real (length data) / 4 > 1.5 * real MAX_TOTAL_IMAGE_PIXELS)
          \<longleftrightarrow> real (length data) > real 180000000"
      by (simp add: MAX_TOTAL_IMAGE_PIXELS_def)
    also have "\<dots> \<longleftrightarrow> length data > 180000000" by (simp only: of_nat_less_iff)
    also have "\<dots> \<longleftrightarrow> 45000000 < (length data + 3) div 4" by linarith
    finally show ?thesis .
  qed
  have a: "fst (pixelLoop onProgress avgBg 0 st0)
     = (if real (length data) / 4 > 1.5 * real MAX_TOTAL_IMAGE_PIXELS
        then Some ProcessingTimeout else None)"
    unfolding c using pixelLoop_outcome [of st0 onProgress avgBg 0] by (simp add: d0)
  have b: "length (ms_data (matchLoop targetRgb tolerance onProgress 0 ms0)) = length data"
    by (simp add: matchLoop_length d0)
  have sub: "4 * p + 3 - 3 = 4 * p" "4 * p + 3 - 2 = 4 * p + 1" "4 * p + 3 - 1 = 4 * p + 2"
    by simp_all
  have e: "ms_data (matchLoop targetRgb tolerance onProgress 0 ms0) ! (4 * p + 3)
        = (if num_le (calculateRgbDistance
                        (rd data (4 * p), rd data (4 * p + 1), rd data (4 * p + 2)) targetRgb)
                tolerance
           then 0 else data ! (4 * p + 3))" if p: "4 * p + 3 < length data"
  proof -
    have "ms_data (matchLoop targetRgb tolerance onProgress 0 ms0) ! (4 * p + 3) =
       (if 0 + 3 \<le> 4 * p + 3 \<and> (4 * p + 3 - 0) mod 4 = 3
           \<and> num_le (calculateRgbDistance
                        (rd (ms_data ms0) (4 * p + 3 - 3), rd (ms_data ms0) (4 * p + 3 - 2),
                         rd (ms_data ms0) (4 * p + 3 - 1)) targetRgb) tolerance
        then 0 else ms_data ms0 ! (4 * p + 3))"
      using p by (intro matchLoop_nth) (simp add: d0)
    then show ?thesis unfolding sub d0 by simp
  qed
  show ?thesis
    unfolding fst_manipulateAlphaByColorMatch st0_def [symmetric] ms0_def [symmetric]
    using a b e by blast
qed

theorem iteration_ceiling_witness:
  "fst (pixelLoop False (Some 255, Some 255, Some 255) 0
          \<lparr>ls_data = replicate 180000004 255, lastReportedPixelProgress = 30, iterations = 0,
           reported = []\<rparr>) = Some ProcessingTimeout
   \<and> fst (pixelLoop False (Some 255, Some 255, Some 255) 0
          \<lparr>ls_data = replicate 180000000 255, lastReportedPixelProgress = 30, iterations = 0,
           reported = []\<rparr>) = None
   \<and> fst (manipulateAlphaByColorMatch [255, 255, 255, 9] (Some 255, Some 255, Some 255) 0 False) ! 3
      = 0"
  using iteration_ceiling [of False "(Some 255, Some 255, Some 255)" "replicate 180000004 255" "[]"]
        iteration_ceiling [of False "(Some 255, Some 255, Some 255)" "replicate 180000000 255" "[]"]
        iteration_ceiling [of False _ "[255, 255, 255, 9]" _ "(Some 255, Some 255, Some 255)" 0 0,
          unfolded mult_0_right add_0]
  by (simp add: MAX_TOTAL_IMAGE_PIXELS_def rd_def byte_value_def calculateRgbDistance_def
        num1_def num2_def num_le_def js_simps)

text \<open>
  On 45,000,001 white pixels, above the ceiling, \<open>manipulateAlphaByColorMatch\<close> scans
  to the last pixel and clears it.
\<close>

theorem utility_no_ceiling_counterexample:
  "real (length (replicate 180000004 (255 :: byte))) / 4 > 1.5 * real MAX_TOTAL_IMAGE_PIXELS
   \<and> length (fst (manipulateAlphaByColorMatch (replicate 180000004 255)
                    (Some 255, Some 255, Some 255) 0 False)) = 180000004
   \<and> fst (manipulateAlphaByColorMatch (replicate 180000004 255)
             (Some 255, Some 255, Some 255) 0 False) ! 180000003 = 0"
proof -
  define ms0 where "ms0 = \<lparr>ms_data = replicate 180000004 (255 :: byte), lastReportedProgress = - 1,
                           delivered = []\<rparr>"
  have d0: "ms_data ms0 = replicate 180000004 255" by (simp add: ms0_def)
  have "ms_data (matchLoop (Some 255, Some 255, Some 255) 0 False 0 ms0) ! 180000003 =
       (if 0 + 3 \<le> (180000003 :: nat) \<and> (180000003 - 0) mod 4 = (3 :: nat)
           \<and> num_le (calculateRgbDistance
                        (rd (ms_data ms0) (180000003 - 3), rd (ms_data ms0) (180000003 - 2),
                         rd (ms_data ms0) (180000003 - 1)) (Some 255, Some 255, Some 255)) 0
        then 0 else ms_data ms0 ! 180000003)"
    by (intro matchLoop_nth) (simp add: d0)
  then have "ms_data (matchLoop (Some 255, Some 255, Some 255) 0 False 0 ms0) ! 180000003 = 0"
    by (simp add: d0 rd_def byte_value_def calculateRgbDistance_def num1_def num2_def num_le_def
          js_simps)
  moreover have "length (ms_data (matchLoop (Some 255, Some 255, Some 255) 0 False 0 ms0)) = 180000004"
    by (simp add: matchLoop_length d0)
  ultimately show ?thesis
    unfolding fst_manipulateAlphaByColorMatch ms0_def [symmetric]
    by (simp add: MAX_TOTAL_IMAGE_PIXELS_def)
qed

section \<open>Progress reports\<close>

lemma pixelBody_progress:
  assumes "sorted (reported st)"
    and "\<forall>v\<in>set (reported st). 0 \<le> v \<and> v \<le> lastReportedPixelProgress st"
    and "lastReportedPixelProgress st \<le> 90"
    and "0 \<le> lastReportedPixelProgress st"
  shows "sorted (reported (pixelBody onProgress avgBg i st))
       \<and> (\<forall>v\<in>set (reported (pixelBody onProgress avgBg i st)).
             0 \<le> v \<and> v \<le> lastReportedPixelProgress (pixelBody onProgress avgBg i st))
       \<and> lastReportedPixelProgress (pixelBody onProgress avgBg i st) \<le> 90
       \<and> 0 \<le> lastReportedPixelProgress (pixelBody onProgress avgBg i st)"
  using assms by (auto simp: pixelBody_def Let_def sorted_append)

lemma pixelLoop_progress:
  "sorted (reported st) \<Longrightarrow>
   \<forall>v\<in>set (reported st). 0 \<le> v \<and> v \<le> lastReportedPixelProgress st \<Longrightarrow>
   lastReportedPixelProgress st \<le> 90 \<Longrightarrow> 0 \<le> lastReportedPixelProgress st \<Longrightarrow>
   sorted (reported (snd (pixelLoop onProgress avgBg i st)))
   \<and> (\<forall>v\<in>set (reported (snd (pixelLoop onProgress avgBg i st))). 0 \<le> v \<and> v \<le> 90)"
proof (induction onProgress avgBg i st rule: pixelLoop.induct)
  case (1 onProgress avgBg i st)
  show ?case
  proof (cases "i < length (ls_data st)")
    case False
    then show ?thesis using "1.prems" by (auto simp: pixelLoop_done)
  next
    case True
    show ?thesis
    proof (cases "iterations st < 45000000")
      case False
      then show ?thesis using True "1.prems" by (auto simp: pixelLoop_abort)
    next
      case lt: True
      define st1 where "st1 = st\<lparr>iterations := iterations st + 1\<rparr>"
      have p1: "sorted (reported st1)"
        "\<forall>v\<in>set (reported st1). 0 \<le> v \<and> v \<le> lastReportedPixelProgress st1"
        "lastReportedPixelProgress st1 \<le> 90" "0 \<le> lastReportedPixelProgress st1"
        using "1.prems" by (simp_all add: st1_def)
      note b = pixelBody_progress [OF p1, of onProgress avgBg i]
      have "sorted (reported (snd (pixelLoop onProgress avgBg (i + 4) (pixelBody onProgress avgBg i st1))))
        \<and> (\<forall>v\<in>set (reported (snd (pixelLoop onProgress avgBg (i + 4)
                (pixelBody onProgress avgBg i st1)))). 0 \<le> v \<and> v \<le> 90)"
        unfolding st1_def
        using lt True b [unfolded st1_def]
        by (intro "1.IH") (simp_all add: MAX_ITERATIONS_iff1)
      then show ?thesis using lt True by (simp add: pixelLoop_step st1_def)
    qed
  qed
qed


lemma imgOnload_progress:
  "sorted (fst (imgOnload onProgress ctx w h data))
   \<and> (\<forall>v\<in>set (fst (imgOnload onProgress ctx w h data)). 0 \<le> v \<and> v \<le> 100)
   \<and> (onProgress \<and> (\<exists>out. snd (imgOnload onProgress ctx w h data) = Inr out)
        \<longrightarrow> fst (imgOnload onProgress ctx w h data) \<noteq> []
            \<and> last (fst (imgOnload onProgress ctx w h data)) = 100)"
proof (cases "dimensionCheck w h")
  case (Some e)
  then show ?thesis by (simp add: imgOnload_def)
next
  case None
  show ?thesis
  proof (cases ctx)
    case False
    then show ?thesis using None by (simp add: imgOnload_def emit_def Let_def)
  next
    case True
    define avg where "avg = estimateBackground data (int w) (int h)"
    define st0 where "st0 = \<lparr>ls_data = data, lastReportedPixelProgress = 30, iterations = 0,
                         reported = emit onProgress 30 (emit onProgress 20 (emit onProgress 10 []))\<rparr>"
    obtain e st where run: "pixelLoop onProgress avg 0 st0 = (e, st)" by (cases "pixelLoop onProgress avg 0 st0")
    have "sorted (reported st0)"
      "\<forall>v\<in>set (reported st0). 0 \<le> v \<and> v \<le> lastReportedPixelProgress st0"
      "lastReportedPixelProgress st0 \<le> 90" "0 \<le> lastReportedPixelProgress st0"
      by (auto simp: st0_def emit_def)
    from pixelLoop_progress [OF this, of onProgress avg 0]
    have inv: "sorted (reported st)" "\<forall>v\<in>set (reported st). 0 \<le> v \<and> v \<le> 90"
      by (simp_all add: run)
    have res: "imgOnload onProgress ctx w h data =
       (case e of Some err \<Rightarrow> (reported st, Inl (CanvasProcessingError err))
        | None \<Rightarrow> (emit onProgress 100 (emit onProgress 95 (reported st)), Inr (ls_data st)))"
      using None True run
      by (simp add: imgOnload_def Let_def avg_def [symmetric] st0_def [symmetric] split: option.splits)
    show ?thesis
    proof (cases e)
      case None
      then show ?thesis using inv unfolding res by (auto simp: emit_def sorted_append)
    next
      case (Some err)
      then show ?thesis using inv unfolding res by auto
    qed
  qed
qed

lemma removeBackground_progress:
  "sorted (fst (removeBackground imageFile onProgress loaded ctx))
   \<and> (\<forall>v\<in>set (fst (removeBackground imageFile onProgress loaded ctx)). 0 \<le> v \<and> v \<le> 100)
   \<and> (onProgress \<and> (\<exists>out. snd (removeBackground imageFile onProgress loaded ctx) = Inr out)
        \<longrightarrow> fst (removeBackground imageFile onProgress loaded ctx) \<noteq> []
            \<and> last (fst (removeBackground imageFile onProgress loaded ctx)) = 100)"
proof (cases "imageFile = Absent")
  case True
  then show ?thesis by (simp add: removeBackground_def)
next
  case False
  show ?thesis
  proof (cases "validateImage imageFile")
    case (Inl e)
    then show ?thesis using False by (simp add: removeBackground_def)
  next
    case (Inr ok)
    show ?thesis
    proof (cases imageFile)
      case Absent
      with False show ?thesis by simp
    next
      case (NotFile ty sz)
      then have "removeBackground imageFile onProgress loaded ctx = ([], Inl TypeError)"
        using Inr by (simp add: removeBackground_def)
      then show ?thesis by simp
    next
      case (IsFile f)
      show ?thesis
      proof (cases loaded)
        case (ImageLoaded w h data)
        then have eq: "removeBackground imageFile onProgress loaded ctx
                       = imgOnload onProgress ctx w h data"
          using IsFile Inr by (simp add: removeBackground_def)
        show ?thesis unfolding eq by (rule imgOnload_progress)
      qed (use IsFile Inr in \<open>simp_all add: removeBackground_def\<close>)
    qed
  qed
qed


text \<open>
  The progress of \<open>manipulateAlphaByColorMatch\<close> never exceeds 100: the four roundings
  raise the quotient of the pixel counts, which is at most 1, by less than a hundredth.
\<close>

lemma utility_progress_bound:
  assumes "4 dvd n" "4 dvd i" "i < n"
  shows "\<lfloor>js_mul (js_div (js_add (js_div (real i) 4) 1) (js_div (real n) 4)) 100\<rfloor> \<le> 100"
proof -
  from assms(2) obtain a where a: "i = 4 * a" by (elim dvdE)
  from assms(1) obtain b where b: "n = 4 * b" by (elim dvdE)
  note ab = a b
  with assms(3) have "a + 1 \<le> b" by simp
  then have le: "real a + 1 \<le> real b" by linarith
  have b0: "0 < real b" using \<open>a + 1 \<le> b\<close> by simp
  define u :: real where "u = 1 + 1 / 2 ^ 53"
  define l :: real where "l = 1 - 1 / 2 ^ 53"
  have u: "1 \<le> u" and l: "0 < l" by (simp_all add: u_def l_def)
  define A where "A = fl (real a)"
  define P where "P = fl (A + 1)"
  define T where "T = fl (real b)"
  define Q where "Q = fl (P / T)"
  have A0: "0 \<le> A" unfolding A_def by (intro fl_nonneg) simp
  have A1: "A \<le> u * real a" unfolding A_def u_def by (intro fl_rel(2)) simp
  have P0: "0 \<le> P" unfolding P_def using A0 by (intro fl_nonneg) simp
  have "P \<le> u * (A + 1)" unfolding P_def u_def using A0 by (intro fl_rel(2)) simp
  also have "A + 1 \<le> u * real a + u * 1" using A1 u by simp
  also have "u * real a + u * 1 = u * (real a + 1)" by (simp add: algebra_simps)
  also have "u * (real a + 1) \<le> u * real b" using le u by (intro mult_left_mono) simp_all
  finally have P1: "P \<le> u * (u * real b)" using u by simp
  have T0: "0 < T" unfolding T_def using b0 by (rule fl_pos)
  have T1: "l * real b \<le> T" unfolding T_def l_def by (intro fl_rel(1)) simp
  have lb: "0 < l * real b" using l b0 by simp
  have "0 \<le> u * (u * real b)" using u by simp
  then have "P / T \<le> (u * (u * real b)) / (l * real b)"
    using P1 lb T1 by (rule frac_le)
  also have "\<dots> = u * u / l" using b0 by simp
  also have "\<dots> \<le> 1 + 1 / 2 ^ 51" by (simp add: u_def l_def)
  finally have q: "P / T \<le> 1 + 1 / 2 ^ 51" .
  have q0: "0 \<le> P / T" using P0 T0 by simp
  have Q0: "0 \<le> Q" unfolding Q_def using q0 by (rule fl_nonneg)
  have "Q \<le> u * (P / T)" unfolding Q_def u_def using q0 by (rule fl_rel(2))
  also have "\<dots> \<le> u * (1 + 1 / 2 ^ 51)" using q u by (intro mult_left_mono) simp_all
  also have "\<dots> \<le> 1 + 1 / 2 ^ 50" by (simp add: u_def)
  finally have Q1: "Q \<le> 1 + 1 / 2 ^ 50" .
  have "fl (Q * 100) \<le> u * (Q * 100)" unfolding u_def using Q0 by (intro fl_rel(2)) simp
  also have "\<dots> \<le> u * ((1 + 1 / 2 ^ 50) * 100)"
    using Q1 u by (intro mult_left_mono mult_right_mono) simp_all
  also have "\<dots> < real_of_int 100 + 1" by (simp add: u_def)
  finally have "\<lfloor>fl (Q * 100)\<rfloor> \<le> 100" by (simp only: floor_le_iff)
  moreover have "js_mul (js_div (js_add (js_div (real i) 4) 1) (js_div (real n) 4)) 100
                 = fl (Q * 100)"
    by (simp add: js_mul_def js_div_def js_add_def Q_def P_def T_def A_def ab)
  ultimately show ?thesis by simp
qed

text \<open>
  On 50 pixels the 29th reports 57: the quotient \<open>29 / 50\<close> is rounded to a double below
  0.58, and its product with 100 lies below 58.
\<close>

lemma utility_progress_example:
  "\<lfloor>js_mul (js_div (js_add (js_div (real (112 :: nat)) 4) 1) (js_div (real (200 :: nat)) 4)) 100\<rfloor>
   = 57"
proof -
  have a: "fl (29 / 50) = 5224175567749775 / 2 ^ 53"
    using fl_eval_down [of "29 / 50" 53 5224175567749775] by simp
  have b: "fl (5224175567749775 / 2 ^ 53 * 100) = 8162774324609023 / 2 ^ 47"
    using fl_eval_down [of "5224175567749775 / 2 ^ 53 * 100" 47 8162774324609023] by simp
  have "js_mul (js_div (js_add (js_div (real (112 :: nat)) 4) 1) (js_div (real (200 :: nat)) 4)) 100
        = fl (fl (29 / 50) * 100)"
    by (simp add: js_mul_def js_div_def js_add_def fl_numeral)
  also have "\<dots> = 8162774324609023 / 2 ^ 47" unfolding a b ..
  finally have v: "js_mul (js_div (js_add (js_div (real (112 :: nat)) 4) 1)
                           (js_div (real (200 :: nat)) 4)) 100 = 8162774324609023 / 2 ^ 47" .
  show ?thesis unfolding v by simp
qed

lemma matchBody_progress:
  assumes "4 dvd length (ms_data st)" "4 dvd i" "i < length (ms_data st)"
    and "sorted (delivered st)"
    and "\<forall>v\<in>set (delivered st). 0 \<le> v \<and> v \<le> lastReportedProgress st"
    and "- 1 \<le> lastReportedProgress st" "lastReportedProgress st \<le> 100"
    and "(delivered st = [] \<and> lastReportedProgress st = - 1)
         \<or> (delivered st \<noteq> [] \<and> last (delivered st) = lastReportedProgress st)"
  shows "sorted (delivered (matchBody targetRgb tolerance onProgress i st))
       \<and> (\<forall>v\<in>set (delivered (matchBody targetRgb tolerance onProgress i st)).
             0 \<le> v \<and> v \<le> lastReportedProgress (matchBody targetRgb tolerance onProgress i st))
       \<and> - 1 \<le> lastReportedProgress (matchBody targetRgb tolerance onProgress i st)
       \<and> lastReportedProgress (matchBody targetRgb tolerance onProgress i st) \<le> 100
       \<and> ((delivered (matchBody targetRgb tolerance onProgress i st) = []
            \<and> lastReportedProgress (matchBody targetRgb tolerance onProgress i st) = - 1)
          \<or> (delivered (matchBody targetRgb tolerance onProgress i st) \<noteq> []
            \<and> last (delivered (matchBody targetRgb tolerance onProgress i st))
               = lastReportedProgress (matchBody targetRgb tolerance onProgress i st)))"
proof -
  define progress where
    "progress = \<lfloor>js_mul (js_div (js_add (js_div (real i) 4) 1)
                                   (js_div (real (length (ms_data st))) 4)) 100\<rfloor>"
  have le: "progress \<le> 100"
    unfolding progress_def using assms(1-3) by (rule utility_progress_bound)
  define st1 where "st1 = (if num_le (calculateRgbDistance
                   (rd (ms_data st) i, rd (ms_data st) (i + 1), rd (ms_data st) (i + 2)) targetRgb)
           tolerance then st\<lparr>ms_data := (ms_data st)[i + 3 := 0]\<rparr> else st)"
  have s1: "delivered st1 = delivered st" "lastReportedProgress st1 = lastReportedProgress st"
    by (simp_all add: st1_def)
  have body: "matchBody targetRgb tolerance onProgress i st =
     (if onProgress \<and> progress > lastReportedProgress st
      then st1\<lparr>delivered := delivered st @ [progress], lastReportedProgress := progress\<rparr>
      else st1)"
  proof -
    have "matchBody targetRgb tolerance onProgress i st =
      (if onProgress
       then (if progress > lastReportedProgress st1
             then st1\<lparr>delivered := delivered st1 @ [progress], lastReportedProgress := progress\<rparr>
             else st1)
       else st1)"
      unfolding matchBody_def Let_def progress_def st1_def by (rule refl)
    then show ?thesis unfolding s1 by (cases onProgress) simp_all
  qed
  show ?thesis
  proof (cases "onProgress \<and> progress > lastReportedProgress st")
    case True
    then show ?thesis unfolding body using assms(4-8) le
      by (auto simp: sorted_append)
  next
    case False
    have "matchBody targetRgb tolerance onProgress i st = st1"
      by (simp only: body False if_False)
    then show ?thesis using assms(4-8) by (simp add: s1)
  qed
qed

lemma matchLoop_progress:
  "4 dvd length (ms_data st) \<Longrightarrow> 4 dvd i \<Longrightarrow>
   sorted (delivered st) \<Longrightarrow>
   \<forall>v\<in>set (delivered st). 0 \<le> v \<and> v \<le> lastReportedProgress st \<Longrightarrow>
   - 1 \<le> lastReportedProgress st \<Longrightarrow> lastReportedProgress st \<le> 100 \<Longrightarrow>
   (delivered st = [] \<and> lastReportedProgress st = - 1)
     \<or> (delivered st \<noteq> [] \<and> last (delivered st) = lastReportedProgress st) \<Longrightarrow>
   sorted (delivered (matchLoop targetRgb tolerance onProgress i st))
   \<and> (\<forall>v\<in>set (delivered (matchLoop targetRgb tolerance onProgress i st)).
         0 \<le> v \<and> v \<le> lastReportedProgress (matchLoop targetRgb tolerance onProgress i st))
   \<and> lastReportedProgress (matchLoop targetRgb tolerance onProgress i st) \<le> 100
   \<and> ((delivered (matchLoop targetRgb tolerance onProgress i st) = []
        \<and> lastReportedProgress (matchLoop targetRgb tolerance onProgress i st) = - 1)
      \<or> (delivered (matchLoop targetRgb tolerance onProgress i st) \<noteq> []
        \<and> last (delivered (matchLoop targetRgb tolerance onProgress i st))
           = lastReportedProgress (matchLoop targetRgb tolerance onProgress i st)))"
proof (induction targetRgb tolerance onProgress i st rule: matchLoop.induct)
  case (1 targetRgb tolerance onProgress i st)
  show ?case
  proof (cases "i < length (ms_data st)")
    case False
    then show ?thesis using "1.prems" by (simp add: matchLoop_done)
  next
    case True
    define st' where "st' = matchBody targetRgb tolerance onProgress i st"
    note b = matchBody_progress [OF "1.prems"(1,2) True "1.prems"(3-7), of targetRgb tolerance onProgress,
               folded st'_def]
    have len: "4 dvd length (ms_data st')" using "1.prems"(1) by (simp add: st'_def length_matchBody)
    have i4: "4 dvd i + 4" using "1.prems"(2) by simp
    have step: "matchLoop targetRgb tolerance onProgress i st
                = matchLoop targetRgb tolerance onProgress (i + 4) st'"
      unfolding st'_def using True by (simp add: matchLoop_step)
    show ?thesis unfolding step
      using b len i4 "1.IH" [OF True, folded st'_def] by blast
  qed
qed

lemma manipulate_progress:
  assumes "4 dvd length data"
  shows "sorted (snd (manipulateAlphaByColorMatch data targetRgb tolerance onProgress))
    \<and> (\<forall>v\<in>set (snd (manipulateAlphaByColorMatch data targetRgb tolerance onProgress)).
          0 \<le> v \<and> v \<le> 100)
    \<and> (onProgress \<longrightarrow>
          snd (manipulateAlphaByColorMatch data targetRgb tolerance onProgress) \<noteq> []
          \<and> last (snd (manipulateAlphaByColorMatch data targetRgb tolerance onProgress)) = 100)"
proof -
  define ms0 where "ms0 = \<lparr>ms_data = data, lastReportedProgress = - 1, delivered = []\<rparr>"
  define st where "st = matchLoop targetRgb tolerance onProgress 0 ms0"
  have inv: "sorted (delivered st)"
    "\<forall>v\<in>set (delivered st). 0 \<le> v \<and> v \<le> lastReportedProgress st"
    "lastReportedProgress st \<le> 100"
    "(delivered st = [] \<and> lastReportedProgress st = - 1)
      \<or> (delivered st \<noteq> [] \<and> last (delivered st) = lastReportedProgress st)"
    using matchLoop_progress [of ms0 0 targetRgb tolerance onProgress] assms
    by (simp_all add: ms0_def st_def)
  have res: "snd (manipulateAlphaByColorMatch data targetRgb tolerance onProgress) =
     (if onProgress \<and> lastReportedProgress st < 100 \<and> js_div (real (length data)) 4 > 0
      then delivered st @ [100]
      else if onProgress \<and> js_div (real (length data)) 4 = 0 then delivered st @ [100]
      else delivered st)"
    by (cases onProgress) (simp_all add: manipulateAlphaByColorMatch_def Let_def st_def ms0_def)
  have "0 \<le> js_div (real (length data)) 4" unfolding js_div_def by (intro fl_nonneg) simp
  then have pos: "js_div (real (length data)) 4 > 0 \<or> js_div (real (length data)) 4 = 0"
    by linarith
  show ?thesis unfolding res using inv pos
    by (auto simp: sorted_append)
qed

text \<open>
  Claim C8. In every run of \<open>removeBackground\<close>, whatever its outcome, the values handed
  to the progress callback never decrease and each is an integer from 0 to 100; when the
  run succeeds and a callback was given, values were delivered and the last one is 100.
  The same holds of \<open>manipulateAlphaByColorMatch\<close> on pixel data, whose length is a
  multiple of 4.
\<close>

theorem progress_sequence:
  "sorted (fst (removeBackground imageFile onProgress loaded ctx))
   \<and> (\<forall>v\<in>set (fst (removeBackground imageFile onProgress loaded ctx)). 0 \<le> v \<and> v \<le> 100)
   \<and> (onProgress \<and> (\<exists>out. snd (removeBackground imageFile onProgress loaded ctx) = Inr out)
        \<longrightarrow> fst (removeBackground imageFile onProgress loaded ctx) \<noteq> []
            \<and> last (fst (removeBackground imageFile onProgress loaded ctx)) = 100)
   \<and> (4 dvd length data \<longrightarrow>
        sorted (snd (manipulateAlphaByColorMatch data targetRgb tolerance onProgress))
        \<and> (\<forall>v\<in>set (snd (manipulateAlphaByColorMatch data targetRgb tolerance onProgress)).
              0 \<le> v \<and> v \<le> 100)
        \<and> (onProgress \<longrightarrow>
              snd (manipulateAlphaByColorMatch data targetRgb tolerance onProgress) \<noteq> []
              \<and> last (snd (manipulateAlphaByColorMatch data targetRgb tolerance onProgress)) = 100))"
  using removeBackground_progress [of imageFile onProgress loaded ctx]
        manipulate_progress [of data targetRgb tolerance onProgress]
  by blast

theorem progress_sequence_witness:
  "removeBackground (IsFile \<lparr>mime = ''image/png'', size_bytes = 10, payload = []\<rparr>) True
      (ImageLoaded 2 1 [0, 0, 0, 255, 72, 0, 0, 255]) True
     = ([10, 20, 30, 95, 100], Inr [0, 0, 0, 255, 72, 0, 0, 0])
   \<and> last (fst (removeBackground (IsFile \<lparr>mime = ''image/png'', size_bytes = 10, payload = []\<rparr>)
        True (ImageLoaded 2 1 [0, 0, 0, 255, 72, 0, 0, 255]) True)) = 100
   \<and> 4 dvd length [10, 0, 0, 255 :: byte]
   \<and> last (snd (manipulateAlphaByColorMatch [10, 0, 0, 255] (Some 0, Some 0, Some 0) 45 True)) = 100"
proof -
  have "0 \<le> fl (1 / 50)" by (intro fl_nonneg) simp
  moreover have "fl (1 / 50) \<le> (1 + 1 / 2 ^ 53) * (1 / 50)" by (intro fl_rel(2)) simp
  ultimately have step: "\<lfloor>fl (1 / 50)\<rfloor> = 0" by (simp add: floor_eq_iff)
  have run: "removeBackground (IsFile \<lparr>mime = ''image/png'', size_bytes = 10, payload = []\<rparr>) True
      (ImageLoaded 2 1 [0, 0, 0, 255, 72, 0, 0, 255]) True
     = ([10, 20, 30, 95, 100], Inr [0, 0, 0, 255, 72, 0, 0, 0])"
    by (simp add: removeBackground_def validTypes_def maxSizeInBytes_def imgOnload_def
          dimensionCheck_def MAX_DIMENSION_SIDE_def MAX_TOTAL_IMAGE_PIXELS_def emit_def
          estimateBackground_def averageOfSamples_def samplePoints_def sampleStep_def
          rd_int_def rd_def byte_value_def num1_def num2_def num_less_def
          calculateRgbDistance_def pixelLoop.simps pixelBody_def MAX_ITERATIONS_def
          colorMatchTolerance_def Let_def js_simps step)
  have "length [10, 0, 0, 255 :: byte] = 4" by simp
  then have d: "4 dvd length [10, 0, 0, 255 :: byte]" by (simp only: dvd_refl)
  show ?thesis
    using progress_sequence [of "IsFile \<lparr>mime = ''image/png'', size_bytes = 10, payload = []\<rparr>"
            True "ImageLoaded 2 1 [0, 0, 0, 255, 72, 0, 0, 255]" True
            "[10, 0, 0, 255]" "(Some 0, Some 0, Some 0)" 45] run d
    by simp
qed

section \<open>Background estimate\<close>

lemma clamped_offset_in_range:
  fixes w h x y :: int
  assumes "0 < w" "0 < h" "0 \<le> x" "0 \<le> y"
  shows "0 \<le> (min y (h - 1) * w + min x (w - 1)) * 4
       \<and> (min y (h - 1) * w + min x (w - 1)) * 4 + 3 < 4 * (w * h)"
proof -
  define row where "row = min y (h - 1)"
  define col where "col = min x (w - 1)"
  have r: "0 \<le> row" "row \<le> h - 1" and c: "0 \<le> col" "col \<le> w - 1"
    using assms by (simp_all add: row_def col_def)
  have "row * w \<le> (h - 1) * w" using r assms(1) by (simp add: mult_right_mono)
  then have "row * w + col \<le> (h - 1) * w + (w - 1)" using c by linarith
  also have "\<dots> = w * h - 1" by (simp add: algebra_simps)
  finally have up: "row * w + col \<le> w * h - 1" .
  have "0 \<le> row * w" using r assms(1) by simp
  then have lo: "0 \<le> row * w + col" using c by linarith
  show ?thesis using lo up by (simp add: row_def [symmetric] col_def [symmetric])
qed

lemma sampleStep_resolves:
  assumes "0 < w" "0 < h" "0 \<le> x" "0 \<le> y" "length data = 4 * (w * h)"
  shows "sampleStep data (int w) (int h) (x, y) (Some a, Some b, Some c, n) =
     (Some (a + byte_value (data ! nat ((min y (int h - 1) * int w + min x (int w - 1)) * 4))),
      Some (b + byte_value (data ! nat ((min y (int h - 1) * int w + min x (int w - 1)) * 4 + 1))),
      Some (c + byte_value (data ! nat ((min y (int h - 1) * int w + min x (int w - 1)) * 4 + 2))),
      n + 1)"
proof -
  define off where "off = (min y (int h - 1) * int w + min x (int w - 1)) * 4"
  have "0 \<le> off \<and> off + 3 < 4 * (int w * int h)"
    unfolding off_def using assms(1-4) by (intro clamped_offset_in_range) simp_all
  moreover have "int (length data) = 4 * (int w * int h)" using assms(5) by simp
  ultimately have rng: "0 \<le> off" "off + 3 < int (length data)" by simp_all
  then have n: "nat off < length data" "nat (off + 1) < length data" "nat (off + 2) < length data"
    by linarith+
  have rds: "rd_int data off = Some (byte_value (data ! nat off))"
    "rd_int data (off + 1) = Some (byte_value (data ! nat (off + 1)))"
    "rd_int data (off + 2) = Some (byte_value (data ! nat (off + 2)))"
    using rng n by (simp_all add: rd_int_def rd_def)
  show ?thesis
    unfolding sampleStep_def Let_def prod.case off_def [symmetric]
    using rng(2) by (simp add: rds num2_def)
qed


lemma fold_sampleStep:
  assumes "0 < w" "0 < h" "length data = 4 * (w * h)"
  shows "\<forall>(x, y)\<in>set pts. 0 \<le> x \<and> 0 \<le> y \<Longrightarrow>
    fold (sampleStep data (int w) (int h)) pts (Some a, Some b, Some c, n) =
     (Some (a + (\<Sum>(x, y)\<leftarrow>pts.
         byte_value (data ! nat ((min y (int h - 1) * int w + min x (int w - 1)) * 4)))),
      Some (b + (\<Sum>(x, y)\<leftarrow>pts.
         byte_value (data ! nat ((min y (int h - 1) * int w + min x (int w - 1)) * 4 + 1)))),
      Some (c + (\<Sum>(x, y)\<leftarrow>pts.
         byte_value (data ! nat ((min y (int h - 1) * int w + min x (int w - 1)) * 4 + 2)))),
      n + length pts)"
proof (induction pts arbitrary: a b c n)
  case Nil
  then show ?case by simp
next
  case (Cons p pts)
  obtain x y where p: "p = (x, y)" by (cases p)
  have xy: "0 \<le> x" "0 \<le> y" using Cons.prems p by simp_all
  have rest: "\<forall>(x, y)\<in>set pts. 0 \<le> x \<and> 0 \<le> y" using Cons.prems by simp
  show ?case
    unfolding p fold_Cons comp_apply sampleStep_resolves [OF assms(1,2) xy assms(3)]
      Cons.IH [OF rest]
    by (simp add: add.assoc)
qed

lemma samplePoints_nonneg:
  "0 < w \<Longrightarrow> 0 < h \<Longrightarrow> \<forall>(x, y)\<in>set (samplePoints (int w) (int h)). 0 \<le> x \<and> 0 \<le> y"
  by (simp add: samplePoints_def)

lemma fold_sampleStep_empty_data:
  assumes "0 < w" "0 < h"
  shows "\<forall>(x, y)\<in>set pts. 0 \<le> x \<and> 0 \<le> y \<Longrightarrow>
    fold (sampleStep [] (int w) (int h)) pts acc = acc"
proof (induction pts)
  case Nil
  then show ?case by simp
next
  case (Cons p pts)
  obtain x y where p: "p = (x, y)" by (cases p)
  obtain rs gs bs n where acc: "acc = (rs, gs, bs, n)" by (cases acc)
  have xy: "0 \<le> x" "0 \<le> y" using Cons.prems p by simp_all
  have "0 \<le> (min y (int h - 1) * int w + min x (int w - 1)) * 4"
    using clamped_offset_in_range [of "int w" "int h" x y] assms xy by simp
  then have "sampleStep [] (int w) (int h) (x, y) acc = acc"
    by (simp add: sampleStep_def acc Let_def)
  then show ?case using Cons by (simp add: p)
qed

lemma fold_sampleAverageStep:
  "fold (sampleAverageStep data w h) pts (a, b, c, n) =
     (a + (\<Sum>(x, y)\<leftarrow>filter (\<lambda>(x, y). 0 \<le> \<lfloor>x\<rfloor> \<and> \<lfloor>x\<rfloor> < w \<and> 0 \<le> \<lfloor>y\<rfloor> \<and> \<lfloor>y\<rfloor> < h
                              \<and> (\<lfloor>y\<rfloor> * w + \<lfloor>x\<rfloor>) * 4 + 2 < int (length data)) pts.
             unat (data ! nat ((\<lfloor>y\<rfloor> * w + \<lfloor>x\<rfloor>) * 4))),
      b + (\<Sum>(x, y)\<leftarrow>filter (\<lambda>(x, y). 0 \<le> \<lfloor>x\<rfloor> \<and> \<lfloor>x\<rfloor> < w \<and> 0 \<le> \<lfloor>y\<rfloor> \<and> \<lfloor>y\<rfloor> < h
                              \<and> (\<lfloor>y\<rfloor> * w + \<lfloor>x\<rfloor>) * 4 + 2 < int (length data)) pts.
             unat (data ! nat ((\<lfloor>y\<rfloor> * w + \<lfloor>x\<rfloor>) * 4 + 1))),
      c + (\<Sum>(x, y)\<leftarrow>filter (\<lambda>(x, y). 0 \<le> \<lfloor>x\<rfloor> \<and> \<lfloor>x\<rfloor> < w \<and> 0 \<le> \<lfloor>y\<rfloor> \<and> \<lfloor>y\<rfloor> < h
                              \<and> (\<lfloor>y\<rfloor> * w + \<lfloor>x\<rfloor>) * 4 + 2 < int (length data)) pts.
             unat (data ! nat ((\<lfloor>y\<rfloor> * w + \<lfloor>x\<rfloor>) * 4 + 2))),
      n + length (filter (\<lambda>(x, y). 0 \<le> \<lfloor>x\<rfloor> \<and> \<lfloor>x\<rfloor> < w \<and> 0 \<le> \<lfloor>y\<rfloor> \<and> \<lfloor>y\<rfloor> < h
                              \<and> (\<lfloor>y\<rfloor> * w + \<lfloor>x\<rfloor>) * 4 + 2 < int (length data)) pts))"
proof (induction pts arbitrary: a b c n)
  case Nil
  then show ?case by simp
next
  case (Cons p pts)
  obtain x y where p: "p = (x, y)" by (cases p)
  show ?case
    unfolding p fold_Cons comp_apply
    by (simp add: sampleAverageStep_def Let_def Cons.IH)
qed

text \<open>
  Claim C2, amended. On a buffer of non-zero dimensions whose data has four bytes per
  pixel, the averaging loop of \<open>removeBackground\<close>, run over any list of coordinates that
  are not negative, bounds each coordinate by \<open>width - 1\<close> and \<open>height - 1\<close>, so that
  every entry resolves, and yields the exact mean of the red, green and blue bytes over all
  entries of the list, each entry counted once; the alpha byte plays no role. Its own
  list is the eight fixed points. When no sample resolves it yields the first pixel, and
  on empty data 0, 0, 0. \<open>sampleAverageColor\<close> bounds nothing: it leaves out every entry
  whose floored coordinates are outside the image, rounds each mean of the entries left
  to the nearest integer, and returns \<open>null\<close> when no entry is left.
\<close>

theorem background_estimate:
  "(0 < w \<and> 0 < h \<and> length data = 4 * (w * h) \<and> (\<forall>(x, y)\<in>set pts. 0 \<le> x \<and> 0 \<le> y) \<longrightarrow>
      (pts \<noteq> [] \<longrightarrow>
         averageOfSamples data (int w) (int h) pts =
           (Some ((\<Sum>(x, y)\<leftarrow>pts. byte_value
                     (data ! nat ((min y (int h - 1) * int w + min x (int w - 1)) * 4)))
                  / real (length pts)),
            Some ((\<Sum>(x, y)\<leftarrow>pts. byte_value
                     (data ! nat ((min y (int h - 1) * int w + min x (int w - 1)) * 4 + 1)))
                  / real (length pts)),
            Some ((\<Sum>(x, y)\<leftarrow>pts. byte_value
                     (data ! nat ((min y (int h - 1) * int w + min x (int w - 1)) * 4 + 2)))
                  / real (length pts))))
      \<and> averageOfSamples data (int w) (int h) [] =
           (Some (byte_value (data ! 0)), Some (byte_value (data ! 1)), Some (byte_value (data ! 2)))
      \<and> averageOfSamples [] (int w) (int h) pts = (Some 0, Some 0, Some 0)
      \<and> estimateBackground data (int w) (int h) =
           (Some ((\<Sum>(x, y)\<leftarrow>samplePoints (int w) (int h). byte_value
                     (data ! nat ((min y (int h - 1) * int w + min x (int w - 1)) * 4))) / 8),
            Some ((\<Sum>(x, y)\<leftarrow>samplePoints (int w) (int h). byte_value
                     (data ! nat ((min y (int h - 1) * int w + min x (int w - 1)) * 4 + 1))) / 8),
            Some ((\<Sum>(x, y)\<leftarrow>samplePoints (int w) (int h). byte_value
                     (data ! nat ((min y (int h - 1) * int w + min x (int w - 1)) * 4 + 2))) / 8)))
   \<and> sampleAverageColor data wi hi rpts =
       (if (filter (\<lambda>(x, y). 0 \<le> \<lfloor>x\<rfloor> \<and> \<lfloor>x\<rfloor> < wi \<and> 0 \<le> \<lfloor>y\<rfloor> \<and> \<lfloor>y\<rfloor> < hi
                                \<and> (\<lfloor>y\<rfloor> * wi + \<lfloor>x\<rfloor>) * 4 + 2 < int (length data)) rpts) = [] then None
        else Some (js_round (real (\<Sum>(x, y)\<leftarrow>(filter (\<lambda>(x, y). 0 \<le> \<lfloor>x\<rfloor> \<and> \<lfloor>x\<rfloor> < wi \<and> 0 \<le> \<lfloor>y\<rfloor> \<and> \<lfloor>y\<rfloor> < hi
                                \<and> (\<lfloor>y\<rfloor> * wi + \<lfloor>x\<rfloor>) * 4 + 2 < int (length data)) rpts). unat (data ! nat ((\<lfloor>y\<rfloor> * wi + \<lfloor>x\<rfloor>) * 4)))
                             / real (length ((filter (\<lambda>(x, y). 0 \<le> \<lfloor>x\<rfloor> \<and> \<lfloor>x\<rfloor> < wi \<and> 0 \<le> \<lfloor>y\<rfloor> \<and> \<lfloor>y\<rfloor> < hi
                                \<and> (\<lfloor>y\<rfloor> * wi + \<lfloor>x\<rfloor>) * 4 + 2 < int (length data)) rpts)))),
                   js_round (real (\<Sum>(x, y)\<leftarrow>(filter (\<lambda>(x, y). 0 \<le> \<lfloor>x\<rfloor> \<and> \<lfloor>x\<rfloor> < wi \<and> 0 \<le> \<lfloor>y\<rfloor> \<and> \<lfloor>y\<rfloor> < hi
                                \<and> (\<lfloor>y\<rfloor> * wi + \<lfloor>x\<rfloor>) * 4 + 2 < int (length data)) rpts). unat (data ! nat ((\<lfloor>y\<rfloor> * wi + \<lfloor>x\<rfloor>) * 4 + 1)))
                             / real (length ((filter (\<lambda>(x, y). 0 \<le> \<lfloor>x\<rfloor> \<and> \<lfloor>x\<rfloor> < wi \<and> 0 \<le> \<lfloor>y\<rfloor> \<and> \<lfloor>y\<rfloor> < hi
                                \<and> (\<lfloor>y\<rfloor> * wi + \<lfloor>x\<rfloor>) * 4 + 2 < int (length data)) rpts)))),
                   js_round (real (\<Sum>(x, y)\<leftarrow>(filter (\<lambda>(x, y). 0 \<le> \<lfloor>x\<rfloor> \<and> \<lfloor>x\<rfloor> < wi \<and> 0 \<le> \<lfloor>y\<rfloor> \<and> \<lfloor>y\<rfloor> < hi
                                \<and> (\<lfloor>y\<rfloor> * wi + \<lfloor>x\<rfloor>) * 4 + 2 < int (length data)) rpts). unat (data ! nat ((\<lfloor>y\<rfloor> * wi + \<lfloor>x\<rfloor>) * 4 + 2)))
                             / real (length ((filter (\<lambda>(x, y). 0 \<le> \<lfloor>x\<rfloor> \<and> \<lfloor>x\<rfloor> < wi \<and> 0 \<le> \<lfloor>y\<rfloor> \<and> \<lfloor>y\<rfloor> < hi
                                \<and> (\<lfloor>y\<rfloor> * wi + \<lfloor>x\<rfloor>) * 4 + 2 < int (length data)) rpts))))))"
proof -
  have inline: "averageOfSamples data (int w) (int h) pts =
           (Some ((\<Sum>(x, y)\<leftarrow>pts. byte_value
                     (data ! nat ((min y (int h - 1) * int w + min x (int w - 1)) * 4)))
                  / real (length pts)),
            Some ((\<Sum>(x, y)\<leftarrow>pts. byte_value
                     (data ! nat ((min y (int h - 1) * int w + min x (int w - 1)) * 4 + 1)))
                  / real (length pts)),
            Some ((\<Sum>(x, y)\<leftarrow>pts. byte_value
                     (data ! nat ((min y (int h - 1) * int w + min x (int w - 1)) * 4 + 2)))
                  / real (length pts)))"
    if "0 < w" "0 < h" "length data = 4 * (w * h)" "\<forall>(x, y)\<in>set pts. 0 \<le> x \<and> 0 \<le> y" "pts \<noteq> []"
    for pts
    unfolding averageOfSamples_def fold_sampleStep [OF that(1-4)]
    using that(5) by (simp add: num1_def)
  have first: "averageOfSamples data (int w) (int h) [] =
           (Some (byte_value (data ! 0)), Some (byte_value (data ! 1)), Some (byte_value (data ! 2)))"
    if "0 < w" "0 < h" "length data = 4 * (w * h)"
  proof -
    have "1 \<le> w * h" using that(1,2) by (simp add: Suc_leI)
    then have "4 \<le> length data" using that(3) by simp
    then have "0 < length data" "1 < length data" "2 < length data" by linarith+
    then show ?thesis by (simp add: averageOfSamples_def rd_def)
  qed
  have empty: "averageOfSamples [] (int w) (int h) pts = (Some 0, Some 0, Some 0)"
    if "0 < w" "0 < h" "\<forall>(x, y)\<in>set pts. 0 \<le> x \<and> 0 \<le> y"
    unfolding averageOfSamples_def fold_sampleStep_empty_data [OF that] by simp
  have eight: "estimateBackground data (int w) (int h) =
           (Some ((\<Sum>(x, y)\<leftarrow>samplePoints (int w) (int h). byte_value
                     (data ! nat ((min y (int h - 1) * int w + min x (int w - 1)) * 4))) / 8),
            Some ((\<Sum>(x, y)\<leftarrow>samplePoints (int w) (int h). byte_value
                     (data ! nat ((min y (int h - 1) * int w + min x (int w - 1)) * 4 + 1))) / 8),
            Some ((\<Sum>(x, y)\<leftarrow>samplePoints (int w) (int h). byte_value
                     (data ! nat ((min y (int h - 1) * int w + min x (int w - 1)) * 4 + 2))) / 8))"
    if "0 < w" "0 < h" "length data = 4 * (w * h)"
  proof -
    have l: "length (samplePoints (int w) (int h)) = 8" "samplePoints (int w) (int h) \<noteq> []"
      by (simp_all add: samplePoints_def)
    show ?thesis
      unfolding estimateBackground_def
        inline [OF that samplePoints_nonneg [OF that(1,2)] l(2)] l(1)
      by simp
  qed
  have util: "sampleAverageColor data wi hi rpts =
       (if (filter (\<lambda>(x, y). 0 \<le> \<lfloor>x\<rfloor> \<and> \<lfloor>x\<rfloor> < wi \<and> 0 \<le> \<lfloor>y\<rfloor> \<and> \<lfloor>y\<rfloor> < hi
                                \<and> (\<lfloor>y\<rfloor> * wi + \<lfloor>x\<rfloor>) * 4 + 2 < int (length data)) rpts) = [] then None
        else Some (js_round (real (\<Sum>(x, y)\<leftarrow>(filter (\<lambda>(x, y). 0 \<le> \<lfloor>x\<rfloor> \<and> \<lfloor>x\<rfloor> < wi \<and> 0 \<le> \<lfloor>y\<rfloor> \<and> \<lfloor>y\<rfloor> < hi
                                \<and> (\<lfloor>y\<rfloor> * wi + \<lfloor>x\<rfloor>) * 4 + 2 < int (length data)) rpts). unat (data ! nat ((\<lfloor>y\<rfloor> * wi + \<lfloor>x\<rfloor>) * 4)))
                             / real (length ((filter (\<lambda>(x, y). 0 \<le> \<lfloor>x\<rfloor> \<and> \<lfloor>x\<rfloor> < wi \<and> 0 \<le> \<lfloor>y\<rfloor> \<and> \<lfloor>y\<rfloor> < hi
                                \<and> (\<lfloor>y\<rfloor> * wi + \<lfloor>x\<rfloor>) * 4 + 2 < int (length data)) rpts)))),
                   js_round (real (\<Sum>(x, y)\<leftarrow>(filter (\<lambda>(x, y). 0 \<le> \<lfloor>x\<rfloor> \<and> \<lfloor>x\<rfloor> < wi \<and> 0 \<le> \<lfloor>y\<rfloor> \<and> \<lfloor>y\<rfloor> < hi
                                \<and> (\<lfloor>y\<rfloor> * wi + \<lfloor>x\<rfloor>) * 4 + 2 < int (length data)) rpts). unat (data ! nat ((\<lfloor>y\<rfloor> * wi + \<lfloor>x\<rfloor>) * 4 + 1)))
                             / real (length ((filter (\<lambda>(x, y). 0 \<le> \<lfloor>x\<rfloor> \<and> \<lfloor>x\<rfloor> < wi \<and> 0 \<le> \<lfloor>y\<rfloor> \<and> \<lfloor>y\<rfloor> < hi
                                \<and> (\<lfloor>y\<rfloor> * wi + \<lfloor>x\<rfloor>) * 4 + 2 < int (length data)) rpts)))),
                   js_round (real (\<Sum>(x, y)\<leftarrow>(filter (\<lambda>(x, y). 0 \<le> \<lfloor>x\<rfloor> \<and> \<lfloor>x\<rfloor> < wi \<and> 0 \<le> \<lfloor>y\<rfloor> \<and> \<lfloor>y\<rfloor> < hi
                                \<and> (\<lfloor>y\<rfloor> * wi + \<lfloor>x\<rfloor>) * 4 + 2 < int (length data)) rpts). unat (data ! nat ((\<lfloor>y\<rfloor> * wi + \<lfloor>x\<rfloor>) * 4 + 2)))
                             / real (length ((filter (\<lambda>(x, y). 0 \<le> \<lfloor>x\<rfloor> \<and> \<lfloor>x\<rfloor> < wi \<and> 0 \<le> \<lfloor>y\<rfloor> \<and> \<lfloor>y\<rfloor> < hi
                                \<and> (\<lfloor>y\<rfloor> * wi + \<lfloor>x\<rfloor>) * 4 + 2 < int (length data)) rpts))))))"
    unfolding sampleAverageColor_def fold_sampleAverageStep by simp
  show ?thesis using inline first empty eight util by blast
qed

theorem background_estimate_witness:
  "averageOfSamples [0, 0, 0, 255, 72, 0, 0, 255] 2 1 [(0, 0), (5, 0)] = (Some 36, Some 0, Some 0)
   \<and> estimateBackground [0, 0, 0, 255, 72, 0, 0, 255] 2 1 = (Some 45, Some 0, Some 0)
   \<and> averageOfSamples [7, 8, 9, 255, 72, 0, 0, 255] 2 1 [] = (Some 7, Some 8, Some 9)
   \<and> sampleAverageColor [0, 0, 0, 255, 72, 0, 0, 255] 2 1 [(0, 0), (1, 0), (5, 0)] = Some (36, 0, 0)"
  using background_estimate [of 2 1 "[0, 0, 0, 255, 72, 0, 0, 255]" "[(0, 0), (5, 0)]"
          2 1 "[(0, 0), (1, 0), (5, 0)]"]
        background_estimate [of 2 1 "[7, 8, 9, 255, 72, 0, 0, 255]" "[]"]
  by (simp add: samplePoints_def byte_value_def js_round_def)

text \<open>
  \<open>sampleAverageColor\<close> on a coordinate beyond the right edge returns \<open>null\<close> where the
  claim has the pixel at the edge; and of the reds 0 and 1 it returns 1, not the mean.
\<close>

theorem sampleAverageColor_counterexample:
  "sampleAverageColor [10, 20, 30, 255] 1 1 [(5, 0)] = None
   \<and> sampleAverageColor [0, 0, 0, 255, 1, 0, 0, 255] 2 1 [(0, 0), (1, 0)] = Some (1, 0, 0)"
  by (simp add: sampleAverageColor_def sampleAverageStep_def js_round_def)

section \<open>The two pipelines compared\<close>

lemma sampleAverageStep_in_bounds:
  assumes "0 < w" "0 < h" "length data = 4 * (w * h)"
    and "0 \<le> x" "x < int w" "0 \<le> y" "y < int h"
  shows "sampleAverageStep data (int w) (int h) (real_of_int x, real_of_int y) (a, b, c, n) =
     (a + unat (data ! nat ((y * int w + x) * 4)),
      b + unat (data ! nat ((y * int w + x) * 4 + 1)),
      c + unat (data ! nat ((y * int w + x) * 4 + 2)),
      n + 1)"
proof -
  have m: "min y (int h - 1) = y" "min x (int w - 1) = x" using assms(5,7) by simp_all
  have "(min y (int h - 1) * int w + min x (int w - 1)) * 4 + 3 < 4 * (int w * int h)"
    using clamped_offset_in_range [of "int w" "int h" x y] assms(1,2,4,6) by simp
  then have "(y * int w + x) * 4 + 3 < int (length data)"
    unfolding m using assms(3) by simp
  then have "(y * int w + x) * 4 + 2 < int (length data)" by simp
  then show ?thesis
    using assms(4-7) by (simp add: sampleAverageStep_def Let_def)
qed

lemma sampleStep_in_bounds:
  assumes "0 < w" "0 < h" "length data = 4 * (w * h)"
    and "0 \<le> x" "x < int w" "0 \<le> y" "y < int h"
  shows "sampleStep data (int w) (int h) (x, y) (Some a, Some b, Some c, n) =
     (Some (a + byte_value (data ! nat ((y * int w + x) * 4))),
      Some (b + byte_value (data ! nat ((y * int w + x) * 4 + 1))),
      Some (c + byte_value (data ! nat ((y * int w + x) * 4 + 2))),
      n + 1)"
proof -
  have m: "min y (int h - 1) = y" "min x (int w - 1) = x" using assms(5,7) by simp_all
  show ?thesis
    using sampleStep_resolves [OF assms(1,2,4,6,3), of a b c n] unfolding m .
qed

lemma folds_agree:
  assumes "0 < w" "0 < h" "length data = 4 * (w * h)"
  shows "\<forall>(x, y)\<in>set pts. 0 \<le> x \<and> x < int w \<and> 0 \<le> y \<and> y < int h \<Longrightarrow>
    \<exists>R G B. fold (sampleAverageStep data (int w) (int h))
               (map (\<lambda>(x, y). (real_of_int x, real_of_int y)) pts) (a, b, c, n)
             = (R, G, B, n + length pts)
           \<and> fold (sampleStep data (int w) (int h)) pts (Some (real a), Some (real b), Some (real c), n)
             = (Some (real R), Some (real G), Some (real B), n + length pts)"
proof (induction pts arbitrary: a b c n)
  case Nil
  then show ?case by simp
next
  case (Cons p pts)
  obtain x y where p: "p = (x, y)" by (cases p)
  have xy: "0 \<le> x" "x < int w" "0 \<le> y" "y < int h" using Cons.prems p by simp_all
  have rest: "\<forall>(x, y)\<in>set pts. 0 \<le> x \<and> x < int w \<and> 0 \<le> y \<and> y < int h"
    using Cons.prems by simp
  define a' where "a' = a + unat (data ! nat ((y * int w + x) * 4))"
  define b' where "b' = b + unat (data ! nat ((y * int w + x) * 4 + 1))"
  define c' where "c' = c + unat (data ! nat ((y * int w + x) * 4 + 2))"
  have s1: "sampleAverageStep data (int w) (int h) (real_of_int x, real_of_int y) (a, b, c, n)
            = (a', b', c', n + 1)"
    unfolding a'_def b'_def c'_def by (rule sampleAverageStep_in_bounds [OF assms xy])
  have s2: "sampleStep data (int w) (int h) (x, y) (Some (real a), Some (real b), Some (real c), n)
            = (Some (real a'), Some (real b'), Some (real c'), n + 1)"
    unfolding sampleStep_in_bounds [OF assms xy] a'_def b'_def c'_def
    by (simp del: of_nat_unat add: byte_value_def)
  from Cons.IH [OF rest, of a' b' c' "n + 1"] obtain R G B where
    "fold (sampleAverageStep data (int w) (int h))
        (map (\<lambda>(x, y). (real_of_int x, real_of_int y)) pts) (a', b', c', n + 1)
       = (R, G, B, n + 1 + length pts)"
    "fold (sampleStep data (int w) (int h)) pts (Some (real a'), Some (real b'), Some (real c'), n + 1)
       = (Some (real R), Some (real G), Some (real B), n + 1 + length pts)"
    by blast
  then show ?case
    unfolding p by (simp add: s1 s2)
qed

lemma samplePoints_in_bounds:
  assumes "0 < w" "0 < h"
  shows "\<forall>(x, y)\<in>set (samplePoints (int w) (int h)). 0 \<le> x \<and> x < int w \<and> 0 \<le> y \<and> y < int h"
proof -
  have "int w div 2 < int w" "int h div 2 < int h" "0 \<le> int w div 2" "0 \<le> int h div 2"
    using assms by simp_all
  then show ?thesis using assms by (simp add: samplePoints_def)
qed

lemma js_round_of_int: "js_round (real_of_int n) = n"
  unfolding js_round_def by linarith

lemma sampleAverageColor_is_rounded_estimate:
  assumes "0 < w" "0 < h" "length data = 4 * (w * h)"
  shows "\<exists>r g b. estimateBackground data (int w) (int h) = (Some r, Some g, Some b)
       \<and> sampleAverageColor data (int w) (int h)
            (map (\<lambda>(x, y). (real_of_int x, real_of_int y)) (samplePoints (int w) (int h)))
          = Some (js_round r, js_round g, js_round b)"
proof -
  have l: "length (samplePoints (int w) (int h)) = 8" by (simp add: samplePoints_def)
  from folds_agree [OF assms samplePoints_in_bounds [OF assms(1,2)], of 0 0 0 0]
  obtain R G B where
    u: "fold (sampleAverageStep data (int w) (int h))
          (map (\<lambda>(x, y). (real_of_int x, real_of_int y)) (samplePoints (int w) (int h))) (0, 0, 0, 0)
        = (R, G, B, 8)"
    and i: "fold (sampleStep data (int w) (int h)) (samplePoints (int w) (int h))
          (Some 0, Some 0, Some 0, 0) = (Some (real R), Some (real G), Some (real B), 8)"
    unfolding l by auto
  have "estimateBackground data (int w) (int h)
        = (Some (real R / 8), Some (real G / 8), Some (real B / 8))"
    by (simp add: estimateBackground_def averageOfSamples_def i num1_def)
  moreover have "sampleAverageColor data (int w) (int h)
            (map (\<lambda>(x, y). (real_of_int x, real_of_int y)) (samplePoints (int w) (int h)))
          = Some (js_round (real R / 8), js_round (real G / 8), js_round (real B / 8))"
    by (simp add: sampleAverageColor_def u)
  ultimately show ?thesis by blast
qed


lemma dimensionCheck_None:
  "dimensionCheck w h = None \<Longrightarrow> 0 < w \<and> 0 < h \<and> w * h \<le> 30000000"
  by (auto simp: dimensionCheck_def MAX_TOTAL_IMAGE_PIXELS_def split: if_splits)

lemma imgOnload_success:
  assumes "dimensionCheck w h = None" "length data = 4 * (w * h)"
  shows "snd (imgOnload onProgress True w h data) =
     Inr (ls_data (snd (pixelLoop onProgress (estimateBackground data (int w) (int h)) 0
        \<lparr>ls_data = data, lastReportedPixelProgress = 30, iterations = 0,
         reported = emit onProgress 30 (emit onProgress 20 (emit onProgress 10 []))\<rparr>)))"
proof -
  define st0 where "st0 = \<lparr>ls_data = data, lastReportedPixelProgress = 30, iterations = 0,
         reported = emit onProgress 30 (emit onProgress 20 (emit onProgress 10 []))\<rparr>"
  define avg where "avg = estimateBackground data (int w) (int h)"
  have "w * h \<le> 30000000" using dimensionCheck_None [OF assms(1)] by blast
  then have "length data \<le> 120000000" unfolding assms(2) by linarith
  then have "\<not> 45000000 < iterations st0 + (length (ls_data st0) + 3 - 0) div 4"
    by (simp add: st0_def)
  then have f: "fst (pixelLoop onProgress avg 0 st0) = None"
    using pixelLoop_outcome [of st0 onProgress avg 0] by (simp add: st0_def)
  obtain e st where run: "pixelLoop onProgress avg 0 st0 = (e, st)"
    by (cases "pixelLoop onProgress avg 0 st0")
  with f have e: "e = None" by simp
  show ?thesis
    unfolding avg_def [symmetric] st0_def [symmetric]
    using assms(1) run e
    by (simp add: imgOnload_def Let_def avg_def [symmetric] st0_def [symmetric])
qed

text \<open>The estimate of \<open>removeBackground\<close> lies from 0 to 255 in each channel.\<close>

lemma sum_list_bounds:
  fixes f :: "'a \<Rightarrow> real"
  assumes "\<And>p. 0 \<le> f p \<and> f p \<le> 255"
  shows "0 \<le> sum_list (map f pts) \<and> sum_list (map f pts) \<le> 255 * real (length pts)"
proof (induction pts)
  case Nil
  then show ?case by simp
next
  case (Cons p pts)
  then show ?case using assms [of p] by (simp add: algebra_simps)
qed

lemma estimateBackground_bounds:
  assumes "0 < w" "0 < h" "length data = 4 * (w * h)"
  shows "\<exists>r g b. estimateBackground data (int w) (int h) = (Some r, Some g, Some b)
           \<and> 0 \<le> r \<and> r \<le> 255 \<and> 0 \<le> g \<and> g \<le> 255 \<and> 0 \<le> b \<and> b \<le> 255"
proof -
  have l: "length (samplePoints (int w) (int h)) = 8" by (simp add: samplePoints_def)
  define S where "S k = (\<Sum>(x, y)\<leftarrow>samplePoints (int w) (int h). byte_value
      (data ! nat ((min y (int h - 1) * int w + min x (int w - 1)) * 4 + k)))" for k :: int
  have b: "0 \<le> S k \<and> S k \<le> 255 * real (length (samplePoints (int w) (int h)))" for k
    unfolding S_def by (rule sum_list_bounds) (simp add: byte_value_bounds split: prod.splits)
  have S: "0 \<le> S k / 8" "S k / 8 \<le> 255" for k using b [of k] unfolding l by simp_all
  have "fold (sampleStep data (int w) (int h)) (samplePoints (int w) (int h))
          (Some 0, Some 0, Some 0, 0)
        = (Some (0 + S 0), Some (0 + S 1), Some (0 + S 2), 0 + length (samplePoints (int w) (int h)))"
    using fold_sampleStep [OF assms samplePoints_nonneg [OF assms(1,2)], of 0 0 0 0]
    by (simp add: S_def)
  then have "estimateBackground data (int w) (int h) = (Some (S 0 / 8), Some (S 1 / 8), Some (S 2 / 8))"
    by (simp add: estimateBackground_def averageOfSamples_def l num1_def)
  then show ?thesis using S by blast
qed

lemmas run_simps =
  imgOnload_def dimensionCheck_def MAX_DIMENSION_SIDE_def MAX_TOTAL_IMAGE_PIXELS_def emit_def
  estimateBackground_def averageOfSamples_def samplePoints_def sampleStep_def
  rd_int_def rd_def byte_value_def num1_def num2_def num_less_def num_le_def
  calculateRgbDistance_def pixelLoop.simps pixelBody_def MAX_ITERATIONS_def
  colorMatchTolerance_def Let_def js_simps
  sampleAverageColor_def sampleAverageStep_def js_round_def
  manipulateAlphaByColorMatch_def matchLoop.simps matchBody_def

text \<open>
  Claim C10, amended. On an image that passes the dimension gate, with four bytes of data
  per pixel, \<open>sampleAverageColor\<close> over the eight sample points returns the estimate of
  \<open>removeBackground\<close> rounded to integers. When that estimate is already whole in each
  channel and no pixel lies at distance exactly 45 from it, \<open>removeBackground\<close> puts back
  on the canvas the very bytes that \<open>manipulateAlphaByColorMatch\<close> yields for the sampled
  colour and tolerance 45, so that the alpha channels are identical.
\<close>

theorem pipelines_agree_off_boundary:
  assumes "dimensionCheck w h = None" and "length data = 4 * (w * h)"
    and "estimateBackground data (int w) (int h)
         = (Some (real_of_int ar), Some (real_of_int ag), Some (real_of_int ab))"
    and "\<forall>p. 4 * p + 3 < length data \<longrightarrow>
           sqrt ((byte_value (data ! (4 * p)) - real_of_int ar) ^ 2
                 + (byte_value (data ! (4 * p + 1)) - real_of_int ag) ^ 2
                 + (byte_value (data ! (4 * p + 2)) - real_of_int ab) ^ 2) \<noteq> 45"
  shows "sampleAverageColor data (int w) (int h)
           (map (\<lambda>(x, y). (real_of_int x, real_of_int y)) (samplePoints (int w) (int h)))
         = Some (ar, ag, ab)
       \<and> snd (imgOnload onProgress True w h data)
         = Inr (fst (manipulateAlphaByColorMatch data
                  (Some (real_of_int ar), Some (real_of_int ag), Some (real_of_int ab)) 45
                  onProgress'))"
proof -
  note dims = dimensionCheck_None [OF assms(1)]
  have wh: "0 < w" "0 < h" using dims by simp_all
  from sampleAverageColor_is_rounded_estimate [OF wh assms(2)] assms(3)
  have sample: "sampleAverageColor data (int w) (int h)
           (map (\<lambda>(x, y). (real_of_int x, real_of_int y)) (samplePoints (int w) (int h)))
         = Some (ar, ag, ab)"
    by (auto simp: js_round_of_int)
  define tgt where "tgt = (Some (real_of_int ar), Some (real_of_int ag), Some (real_of_int ab))"
  define st0 where "st0 = \<lparr>ls_data = data, lastReportedPixelProgress = 30, iterations = 0,
         reported = emit onProgress 30 (emit onProgress 20 (emit onProgress 10 []))\<rparr>"
  define ms0 where "ms0 = \<lparr>ms_data = data, lastReportedProgress = - 1, delivered = []\<rparr>"
  have d0: "ls_data st0 = data" "iterations st0 = 0" "ms_data ms0 = data"
    by (simp_all add: st0_def ms0_def)
  have "w * h \<le> 30000000" using dims by blast
  then have "length data \<le> 120000000" unfolding assms(2) by linarith
  then have it: "iterations st0 + (length (ls_data st0) + 3 - 0) div 4 \<le> 45000000"
    by (simp add: d0)
  have whole: "8 * real_of_int ar \<in> \<int>" "8 * real_of_int ag \<in> \<int>" "8 * real_of_int ab \<in> \<int>"
    by simp_all
  have range: "0 \<le> real_of_int ar" "real_of_int ar \<le> 255" "0 \<le> real_of_int ag"
    "real_of_int ag \<le> 255" "0 \<le> real_of_int ab" "real_of_int ab \<le> 255"
    using estimateBackground_bounds [OF wh assms(2)] unfolding assms(3) by auto
  have same: "ls_data (snd (pixelLoop onProgress tgt 0 st0))
              = ms_data (matchLoop tgt 45 onProgress' 0 ms0)"
  proof (rule nth_equalityI)
    show "length (ls_data (snd (pixelLoop onProgress tgt 0 st0)))
          = length (ms_data (matchLoop tgt 45 onProgress' 0 ms0))"
      by (simp add: pixelLoop_length matchLoop_length d0)
  next
    fix j assume "j < length (ls_data (snd (pixelLoop onProgress tgt 0 st0)))"
    then have j: "j < length data" by (simp add: pixelLoop_length d0)
    have L: "ls_data (snd (pixelLoop onProgress tgt 0 st0)) ! j =
       (if 0 + 3 \<le> j \<and> (j - 0) mod 4 = 3
           \<and> num_less (calculateRgbDistance
                          (rd (ls_data st0) (j - 3), rd (ls_data st0) (j - 2), rd (ls_data st0) (j - 1))
                          tgt) colorMatchTolerance
        then 0 else ls_data st0 ! j)"
      using it j by (intro pixelLoop_nth) (simp_all add: d0)
    have R: "ms_data (matchLoop tgt 45 onProgress' 0 ms0) ! j =
       (if 0 + 3 \<le> j \<and> (j - 0) mod 4 = 3
           \<and> num_le (calculateRgbDistance
                        (rd (ms_data ms0) (j - 3), rd (ms_data ms0) (j - 2), rd (ms_data ms0) (j - 1))
                        tgt) 45
        then 0 else ms_data ms0 ! j)"
      using j by (intro matchLoop_nth) (simp add: d0)
    show "ls_data (snd (pixelLoop onProgress tgt 0 st0)) ! j
          = ms_data (matchLoop tgt 45 onProgress' 0 ms0) ! j"
    proof (cases "3 \<le> j \<and> j mod 4 = 3")
      case False
      then show ?thesis unfolding L R d0 by auto
    next
      case True
      define p where "p = j div 4"
      have jp: "j = 4 * p + 3" using True unfolding p_def by presburger
      have sub: "j - 3 = 4 * p" "j - 2 = 4 * p + 1" "j - 1 = 4 * p + 2" unfolding jp by simp_all
      have lt: "4 * p < length data" "4 * p + 1 < length data" "4 * p + 2 < length data"
        using j unfolding jp by simp_all
      define euclid where "euclid = sqrt ((byte_value (data ! (4 * p)) - real_of_int ar) ^ 2
                 + (byte_value (data ! (4 * p + 1)) - real_of_int ag) ^ 2
                 + (byte_value (data ! (4 * p + 2)) - real_of_int ab) ^ 2)"
      define dist where "dist = js_sqrt (js_add (js_add
                   (js_pow2 (js_sub (byte_value (data ! (4 * p))) (real_of_int ar)))
                   (js_pow2 (js_sub (byte_value (data ! (4 * p + 1))) (real_of_int ag))))
                   (js_pow2 (js_sub (byte_value (data ! (4 * p + 2))) (real_of_int ab))))"
      have ne: "euclid \<noteq> 45" unfolding euclid_def using assms(4) j jp by blast
      have i45: "8 * (45 :: real) \<in> \<int>" by simp
      have "dist < 45 \<longleftrightarrow> euclid < 45"
        unfolding dist_def euclid_def by (rule byte_distance_compare(2) [OF whole range i45])
      moreover have "dist \<le> 45 \<longleftrightarrow> euclid \<le> 45"
        unfolding dist_def euclid_def by (rule byte_distance_compare(1) [OF whole range i45])
      ultimately have same: "dist < 45 \<longleftrightarrow> dist \<le> 45" using ne by auto
      have dd: "calculateRgbDistance (rd data (4 * p), rd data (4 * p + 1), rd data (4 * p + 2)) tgt
                = Some dist"
        unfolding tgt_def dist_def rd_Some [OF lt(1)] rd_Some [OF lt(2)] rd_Some [OF lt(3)]
        by (rule calculateRgbDistance_Some)
      show ?thesis
        unfolding L R d0 sub dd num_less_def num_le_def colorMatchTolerance_def
        using same by auto
    qed
  qed
  have "snd (imgOnload onProgress True w h data)
        = Inr (ls_data (snd (pixelLoop onProgress tgt 0 st0)))"
    unfolding tgt_def st0_def assms(3) [symmetric] by (rule imgOnload_success [OF assms(1,2)])
  then have "snd (imgOnload onProgress True w h data)
         = Inr (fst (manipulateAlphaByColorMatch data tgt 45 onProgress'))"
    unfolding fst_manipulateAlphaByColorMatch ms0_def [symmetric] same .
  then show ?thesis using sample unfolding tgt_def by blast
qed

theorem pipelines_agree_off_boundary_witness:
  "sampleAverageColor [0, 0, 0, 255, 8, 0, 0, 255] 2 1
      (map (\<lambda>(x, y). (real_of_int x, real_of_int y)) (samplePoints 2 1)) = Some (5, 0, 0)
   \<and> snd (imgOnload False True 2 1 [0, 0, 0, 255, 8, 0, 0, 255])
      = Inr (fst (manipulateAlphaByColorMatch [0, 0, 0, 255, 8, 0, 0, 255]
                    (Some 5, Some 0, Some 0) 45 False))"
proof -
  have h1: "dimensionCheck 2 1 = None"
    by (simp add: dimensionCheck_def MAX_DIMENSION_SIDE_def MAX_TOTAL_IMAGE_PIXELS_def)
  have h2: "length [0, 0, 0, 255, 8, 0, 0, 255 :: byte] = 4 * (2 * 1)" by simp
  have h3: "estimateBackground [0, 0, 0, 255, 8, 0, 0, 255] (int 2) (int 1)
            = (Some (real_of_int 5), Some (real_of_int 0), Some (real_of_int 0))"
    by (simp add: estimateBackground_def averageOfSamples_def samplePoints_def sampleStep_def
          rd_int_def rd_def byte_value_def num1_def num2_def Let_def)
  have h4: "\<forall>p. 4 * p + 3 < length [0, 0, 0, 255, 8, 0, 0, 255 :: byte] \<longrightarrow>
           sqrt ((byte_value ([0, 0, 0, 255, 8, 0, 0, 255] ! (4 * p)) - real_of_int 5) ^ 2
                 + (byte_value ([0, 0, 0, 255, 8, 0, 0, 255] ! (4 * p + 1)) - real_of_int 0) ^ 2
                 + (byte_value ([0, 0, 0, 255, 8, 0, 0, 255] ! (4 * p + 2)) - real_of_int 0) ^ 2)
           \<noteq> 45"
  proof (intro allI impI)
    fix p :: nat
    assume "4 * p + 3 < length [0, 0, 0, 255, 8, 0, 0, 255 :: byte]"
    then have "p = 0 \<or> p = 1" by simp linarith
    then show "sqrt ((byte_value ([0, 0, 0, 255, 8, 0, 0, 255] ! (4 * p)) - real_of_int 5) ^ 2
                 + (byte_value ([0, 0, 0, 255, 8, 0, 0, 255] ! (4 * p + 1)) - real_of_int 0) ^ 2
                 + (byte_value ([0, 0, 0, 255, 8, 0, 0, 255] ! (4 * p + 2)) - real_of_int 0) ^ 2)
           \<noteq> 45"
      by (auto simp: byte_value_def)
  qed
  show ?thesis
    using pipelines_agree_off_boundary [OF h1 h2 h3 h4, of False False] by simp
qed

text \<open>
  The two differ on two images of 2 by 1 pixels. On the first the estimate is (45, 0, 0)
  and the black pixel lies exactly at distance 45: only the utility clears it. On the
  second the estimate is (42.5, 13.75, 0), about 44.7 from the black pixel, which the
  inline loop clears; rounded to (43, 14, 0) it is about 45.2 away, and the utility leaves
  the pixel opaque.
\<close>

theorem pipelines_differ_counterexample:
  "snd (imgOnload False True 2 1 [0, 0, 0, 255, 72, 0, 0, 255]) = Inr [0, 0, 0, 255, 72, 0, 0, 0]
   \<and> (case sampleAverageColor [0, 0, 0, 255, 72, 0, 0, 255] 2 1
              (map (\<lambda>(x, y). (real_of_int x, real_of_int y)) (samplePoints 2 1)) of
         None \<Rightarrow> []
       | Some (r, g, b) \<Rightarrow>
           fst (manipulateAlphaByColorMatch [0, 0, 0, 255, 72, 0, 0, 255]
                  (Some (real_of_int r), Some (real_of_int g), Some (real_of_int b)) 45 False))
      = [0, 0, 0, 0, 72, 0, 0, 0]
   \<and> snd (imgOnload False True 2 1 [0, 0, 0, 255, 68, 22, 0, 255])
      = Inr [0, 0, 0, 0, 68, 22, 0, 0]
   \<and> (case sampleAverageColor [0, 0, 0, 255, 68, 22, 0, 255] 2 1
              (map (\<lambda>(x, y). (real_of_int x, real_of_int y)) (samplePoints 2 1)) of
         None \<Rightarrow> []
       | Some (r, g, b) \<Rightarrow>
           fst (manipulateAlphaByColorMatch [0, 0, 0, 255, 68, 22, 0, 255]
                  (Some (real_of_int r), Some (real_of_int g), Some (real_of_int b)) 45 False))
      = [0, 0, 0, 255, 68, 22, 0, 0]"
proof -
  have d: "fl (85 / 2) = 85 / 2" "fl (55 / 4) = 55 / 4" "fl (51 / 2) = 51 / 2" "fl (33 / 4) = 33 / 4"
    "fl (7225 / 4) = 7225 / 4" "fl (3025 / 16) = 3025 / 16" "fl (31925 / 16) = 31925 / 16"
    "fl (2601 / 4) = 2601 / 4" "fl (1089 / 16) = 1089 / 16" "fl (11493 / 16) = 11493 / 16"
    using fl_dyadic [of 85 1] fl_dyadic [of 55 2] fl_dyadic [of 51 1] fl_dyadic [of 33 2]
      fl_dyadic [of 7225 2] fl_dyadic [of 3025 4] fl_dyadic [of 31925 4]
      fl_dyadic [of 2601 2] fl_dyadic [of 1089 4] fl_dyadic [of 11493 4]
    by simp_all
  have rt: "fl (sqrt (x / 16)) = fl (sqrt x) / 4" for x :: real
  proof -
    have "sqrt (x / 16) = sqrt x / 2 ^ 2" using real_sqrt_divide [of x 16] real_sqrt_abs [of 4]
      by simp
    then show ?thesis by (simp only: fl_div_pow2) simp
  qed
  have a: "fl (sqrt (31925 / 16)) < 45" unfolding rt by (simp add: fl_sqrt_less_numeral)
  have b: "fl (sqrt (11493 / 16)) < 45" unfolding rt by (simp add: fl_sqrt_less_numeral)
  show ?thesis
    by (simp add: run_simps power2_eq_square fl_minus d a b)
qed

section \<open>Sobel filter\<close>

lemma typedArraySet_same_length:
  "length source = length target \<Longrightarrow> typedArraySet target source = Inr source"
  by (simp add: typedArraySet_def)

lemma grayscale_uniform_red:
  assumes "length data = 4 * n" "p < n"
    and "data ! (4 * p) = cr" "data ! (4 * p + 1) = cg" "data ! (4 * p + 2) = cb"
  shows "rd (convertToGrayscaleInPlace data) (4 * p) =
     Some (byte_value (toUint8Clamp (grayscaleValue (Some (byte_value cr)) (Some (byte_value cg))
                                       (Some (byte_value cb)))))"
proof -
  have lt: "4 * p < length data" "4 * p + 1 < length data" "4 * p + 2 < length data"
    using assms(1,2) by simp_all
  have "grayscaleLoop 0 data ! (4 * p) =
      toUint8Clamp (grayscaleValue (rd data (4 * (4 * p div 4))) (rd data (4 * (4 * p div 4) + 1))
                                        (rd data (4 * (4 * p div 4) + 2)))"
    using lt(1) by (simp add: grayscaleLoop0_nth)
  also have "4 * p div 4 = p" by simp
  finally have "grayscaleLoop 0 data ! (4 * p) =
      toUint8Clamp (grayscaleValue (Some (byte_value cr)) (Some (byte_value cg)) (Some (byte_value cb)))"
    unfolding rd_Some [OF lt(1)] rd_Some [OF lt(2)] rd_Some [OF lt(3)] assms(3-5) .
  then show ?thesis using lt(1) by (simp add: convertToGrayscaleInPlace_def rd_def)
qed

lemma rd_int_pixel:
  assumes "\<And>p. p < w * h \<Longrightarrow> rd src (4 * p) = Some v"
    and "0 \<le> px" "px < int w" "0 \<le> py" "py < int h"
  shows "rd_int src ((py * int w + px) * 4) = Some v"
proof -
  have "py * int w \<le> (int h - 1) * int w" using assms(5) by (simp add: mult_right_mono)
  then have "py * int w + px < int h * int w" using assms(3) by (simp add: algebra_simps)
  moreover have "0 \<le> py * int w + px" using assms(2,4) by simp
  ultimately have "nat (py * int w + px) < w * h"
    by (metis mult.commute nat_int nat_less_iff of_nat_mult)
  then have "rd src (4 * nat (py * int w + px)) = Some v" by (rule assms(1))
  moreover have "nat ((py * int w + px) * 4) = 4 * nat (py * int w + px)"
    using \<open>0 \<le> py * int w + px\<close> by (simp add: nat_mult_distrib)
  ultimately show ?thesis using \<open>0 \<le> py * int w + px\<close> by (simp add: rd_int_def)
qed

lemma convolution_uniform:
  assumes "\<And>p. p < w * h \<Longrightarrow> rd src (4 * p) = Some v" and "x < w" "y < h"
  shows "applyConvolutionKernelToGrayscale src (int x) (int y) (int w) (int h) SOBEL_X_KERNEL = Some 0"
    and "applyConvolutionKernelToGrayscale src (int x) (int y) (int w) (int h) SOBEL_Y_KERNEL = Some 0"
proof -
  have r: "rd_int src ((min (int h - 1) (max 0 (int y + ky)) * int w
                        + min (int w - 1) (max 0 (int x + kx))) * 4) = Some v" for kx ky
    using assms(2,3) by (intro rd_int_pixel [OF assms(1)]) auto
  show "applyConvolutionKernelToGrayscale src (int x) (int y) (int w) (int h) SOBEL_X_KERNEL = Some 0"
    unfolding applyConvolutionKernelToGrayscale_def Let_def r
    by (simp add: SOBEL_X_KERNEL_def num1_def num2_def)
  show "applyConvolutionKernelToGrayscale src (int x) (int y) (int w) (int h) SOBEL_Y_KERNEL = Some 0"
    unfolding applyConvolutionKernelToGrayscale_def Let_def r
    by (simp add: SOBEL_Y_KERNEL_def num1_def num2_def)
qed

lemma toUint8Clamp_zero: "toUint8Clamp (Some 0) = 0"
  by (simp add: toUint8Clamp_def round_half_even_def)

lemma sobelPixel_uniform:
  assumes "\<And>p. p < w * h \<Longrightarrow> rd src (4 * p) = Some v" and "x < w" "y < h"
  shows "sobelPixel src w h y x out =
     out[(y * w + x) * 4 := 0, (y * w + x) * 4 + 1 := 0, (y * w + x) * 4 + 2 := 0,
         (y * w + x) * 4 + 3 := 255]"
proof -
  have gx: "applyConvolutionKernelToGrayscale src (int x) (int y) (int w) (int h) SOBEL_X_KERNEL = Some 0"
    using assms by (rule convolution_uniform(1))
  have gy: "applyConvolutionKernelToGrayscale src (int x) (int y) (int w) (int h) SOBEL_Y_KERNEL = Some 0"
    using assms by (rule convolution_uniform(2))
  have m: "toUint8Clamp (num1 (\<lambda>m. min 255 (max 0 (real_of_int (js_round m))))
             (num1 js_sqrt (num2 (+) (num2 (*) (Some 0) (Some 0)) (num2 (*) (Some 0) (Some 0))))) = 0"
    by (simp add: num1_def num2_def js_round_def js_sqrt_def toUint8Clamp_zero)
  show ?thesis
    unfolding sobelPixel_def Let_def gx gy m ..
qed


lemma mark_pixel:
  fixes out :: bytes
  assumes "length out = 4 * N" "n < N"
    and "\<forall>j<4 * N. out ! j = (if j mod 4 = 3 \<and> j div 4 < n then 255 else 0)"
  shows "length (out[n * 4 := 0, n * 4 + 1 := 0, n * 4 + 2 := 0, n * 4 + 3 := 255]) = 4 * N
       \<and> (\<forall>j<4 * N. out[n * 4 := 0, n * 4 + 1 := 0, n * 4 + 2 := 0, n * 4 + 3 := 255] ! j
              = (if j mod 4 = 3 \<and> j div 4 < n + 1 then 255 else 0))"
proof (intro conjI allI impI)
  show "length (out[n * 4 := 0, n * 4 + 1 := 0, n * 4 + 2 := 0, n * 4 + 3 := 255]) = 4 * N"
    using assms(1) by simp
next
  fix j assume j: "j < 4 * N"
  then have jl: "j < length out" using assms(1) by simp
  have old: "out ! j = (if j mod 4 = 3 \<and> j div 4 < n then 255 else 0)" using assms(3) j by blast
  show "out[n * 4 := 0, n * 4 + 1 := 0, n * 4 + 2 := 0, n * 4 + 3 := 255] ! j
        = (if j mod 4 = 3 \<and> j div 4 < n + 1 then 255 else 0)"
  proof (cases "j div 4 = n")
    case True
    define r where "r = j mod 4"
    have "j = j div 4 * 4 + j mod 4" by simp
    then have jr: "j = n * 4 + r" "r < 4" unfolding True r_def by simp_all
    have L: "out[n * 4 := 0, n * 4 + 1 := 0, n * 4 + 2 := 0, n * 4 + 3 := 255] ! (n * 4 + r)
             = (if r = 3 then 255 else 0)"
    proof -
      have lt: "n * 4 + r < length out" using jl jr(1) by simp
      from jr(2) consider "r = 0" | "r = 1" | "r = 2" | "r = 3" by linarith
      then show ?thesis
      proof cases
        case 1 then show ?thesis using lt by simp
      next
        case 2 then show ?thesis using lt by simp
      next
        case 3 then show ?thesis using lt by simp
      next
        case 4 then show ?thesis using lt by simp
      qed
    qed
    have R: "(j mod 4 = 3 \<and> j div 4 < n + 1) = (r = 3)" using True by (simp add: r_def)
    show ?thesis unfolding R using L jr(1) by simp
  next
    case False
    then have ne: "j \<noteq> n * 4" "j \<noteq> n * 4 + 1" "j \<noteq> n * 4 + 2" "j \<noteq> n * 4 + 3" by auto
    have "(j div 4 < n + 1) = (j div 4 < n)" using False by linarith
    then show ?thesis using ne old by simp
  qed
qed

lemma sobel_row:
  assumes "\<And>p. p < w * h \<Longrightarrow> rd src (4 * p) = Some v" and "y < h"
  shows "k \<le> w \<Longrightarrow> length out = 4 * (w * h) \<Longrightarrow>
    \<forall>j<4 * (w * h). out ! j = (if j mod 4 = 3 \<and> j div 4 < y * w then 255 else 0) \<Longrightarrow>
    length (fold (\<lambda>x out. sobelPixel src w h y x out) [0..<k] out) = 4 * (w * h)
    \<and> (\<forall>j<4 * (w * h). fold (\<lambda>x out. sobelPixel src w h y x out) [0..<k] out ! j
          = (if j mod 4 = 3 \<and> j div 4 < y * w + k then 255 else 0))"
proof (induction k)
  case 0
  then show ?case by simp
next
  case (Suc k)
  define mid where "mid = fold (\<lambda>x out. sobelPixel src w h y x out) [0..<k] out"
  have IH: "length mid = 4 * (w * h)"
    "\<forall>j<4 * (w * h). mid ! j = (if j mod 4 = 3 \<and> j div 4 < y * w + k then 255 else 0)"
    using Suc.IH Suc.prems unfolding mid_def by simp_all
  have kw: "k < w" using Suc.prems(1) by simp
  have "y * w + k < y * w + w" using kw by simp
  also have "\<dots> = (y + 1) * w" by simp
  also have "\<dots> \<le> h * w" using assms(2) by (intro mult_right_mono) simp_all
  finally have n: "y * w + k < w * h" by (simp add: mult.commute)
  have step: "fold (\<lambda>x out. sobelPixel src w h y x out) [0..<Suc k] out
        = mid[(y * w + k) * 4 := 0, (y * w + k) * 4 + 1 := 0, (y * w + k) * 4 + 2 := 0,
              (y * w + k) * 4 + 3 := 255]"
    by (simp add: mid_def sobelPixel_uniform [OF assms(1) kw assms(2)])
  show ?case unfolding step using mark_pixel [OF IH(1) n IH(2)] by simp
qed

lemma sobel_rows:
  assumes "\<And>p. p < w * h \<Longrightarrow> rd src (4 * p) = Some v"
  shows "k \<le> h \<Longrightarrow> length out = 4 * (w * h) \<Longrightarrow>
    \<forall>j<4 * (w * h). out ! j = 0 \<Longrightarrow>
    length (fold (\<lambda>y out. fold (\<lambda>x out. sobelPixel src w h y x out) [0..<w] out) [0..<k] out)
      = 4 * (w * h)
    \<and> (\<forall>j<4 * (w * h).
          fold (\<lambda>y out. fold (\<lambda>x out. sobelPixel src w h y x out) [0..<w] out) [0..<k] out ! j
          = (if j mod 4 = 3 \<and> j div 4 < k * w then 255 else 0))"
proof (induction k)
  case 0
  then show ?case by simp
next
  case (Suc k)
  define mid where
    "mid = fold (\<lambda>y out. fold (\<lambda>x out. sobelPixel src w h y x out) [0..<w] out) [0..<k] out"
  have IH: "length mid = 4 * (w * h)"
    "\<forall>j<4 * (w * h). mid ! j = (if j mod 4 = 3 \<and> j div 4 < k * w then 255 else 0)"
    using Suc.IH Suc.prems unfolding mid_def by simp_all
  have kh: "k < h" using Suc.prems(1) by simp
  have step: "fold (\<lambda>y out. fold (\<lambda>x out. sobelPixel src w h y x out) [0..<w] out) [0..<Suc k] out
        = fold (\<lambda>x out. sobelPixel src w h k x out) [0..<w] mid"
    by (simp add: mid_def)
  show ?case unfolding step
    using sobel_row [OF assms kh le_refl IH(1) IH(2)] by (simp add: add.commute)
qed

lemma sobelLoops_uniform:
  assumes "\<And>p. p < w * h \<Longrightarrow> rd src (4 * p) = Some v"
  shows "length (sobelLoops src w h (replicate (4 * w * h) 0)) = 4 * (w * h)"
    and "j < 4 * (w * h) \<Longrightarrow>
         sobelLoops src w h (replicate (4 * w * h) 0) ! j = (if j mod 4 = 3 then 255 else 0)"
proof -
  have z: "length (replicate (4 * w * h) (0 :: byte)) = 4 * (w * h)"
    "\<forall>j<4 * (w * h). replicate (4 * w * h) (0 :: byte) ! j = 0"
    by (simp_all add: mult.assoc)
  note r = sobel_rows [OF assms le_refl z, folded sobelLoops_def]
  show "length (sobelLoops src w h (replicate (4 * w * h) 0)) = 4 * (w * h)" using r by blast
  show "sobelLoops src w h (replicate (4 * w * h) 0) ! j = (if j mod 4 = 3 then 255 else 0)"
    if "j < 4 * (w * h)"
  proof -
    have "j div 4 < h * w" using that by (simp add: mult.commute less_mult_imp_div_less)
    then show ?thesis using r that by simp
  qed
qed

text \<open>
  Claim C7, amended. Let the source be an allocated array of \<open>4 * width * height\<close> bytes in
  which every pixel has the same red, green and blue bytes. When the 2D context is
  available, \<open>applySobelFilter\<close> returns a newly allocated array of the same size in which
  every pixel is 0, 0, 0, 255, and the source array is as before; the convolution reads
  the grayscale copy at coordinates clamped into the image. When the context is not
  available it returns a new array holding a copy of the source.
\<close>

theorem sobel_uniform_black:
  assumes "arrays s src = Some data" and "src < next_ref s"
    and "length data = 4 * (w * h)"
    and "\<forall>p<w * h. data ! (4 * p) = cr \<and> data ! (4 * p + 1) = cg \<and> data ! (4 * p + 2) = cb"
  shows "fst (applySobelFilter True src w h s) = Inr (next_ref s + 1)
       \<and> next_ref s + 1 \<noteq> src
       \<and> arrays (snd (applySobelFilter True src w h s)) src = Some data
       \<and> (\<exists>outputData. arrays (snd (applySobelFilter True src w h s)) (next_ref s + 1) = Some outputData
            \<and> length outputData = 4 * (w * h)
            \<and> (\<forall>p<w * h. outputData ! (4 * p) = 0 \<and> outputData ! (4 * p + 1) = 0
                  \<and> outputData ! (4 * p + 2) = 0 \<and> outputData ! (4 * p + 3) = 255))
       \<and> fst (applySobelFilter False src w h s) = Inr (next_ref s)
       \<and> arrays (snd (applySobelFilter False src w h s)) (next_ref s) = Some data
       \<and> arrays (snd (applySobelFilter False src w h s)) src = Some data"
proof -
  define gray where "gray = convertToGrayscaleInPlace data"
  define zeros where "zeros = replicate (4 * w * h) (0 :: byte)"
  define v where "v = byte_value (toUint8Clamp (grayscaleValue (Some (byte_value cr))
                        (Some (byte_value cg)) (Some (byte_value cb))))"
  have ne: "src \<noteq> next_ref s" "next_ref s + 1 \<noteq> src" using assms(2) by simp_all
  have lz: "length data = length zeros" using assms(3) by (simp add: zeros_def mult.assoc)
  have set: "typedArraySet zeros data = Inr data" by (rule typedArraySet_same_length [OF lz])
  have run: "applySobelFilter True src w h s =
     (Inr (next_ref s + 1),
      s\<lparr>arrays := (arrays s)(next_ref s \<mapsto> gray, next_ref s + 1 \<mapsto> sobelLoops gray w h zeros),
        next_ref := next_ref s + 1 + 1\<rparr>)"
    using assms(1) ne(1)
    by (simp add: applySobelFilter_def createImageData_def Let_def zeros_def [symmetric] set
          gray_def [symmetric])
  have reads: "rd gray (4 * p) = Some v" if "p < w * h" for p
    unfolding gray_def v_def using assms(3) that assms(4) by (intro grayscale_uniform_red) auto
  have o1: "length (sobelLoops gray w h zeros) = 4 * (w * h)"
    unfolding zeros_def by (rule sobelLoops_uniform(1) [of w h gray v]) (rule reads)
  have o2: "sobelLoops gray w h zeros ! j = (if j mod 4 = 3 then 255 else 0)"
    if "j < 4 * (w * h)" for j
    unfolding zeros_def using that
    by (rule sobelLoops_uniform(2) [of w h gray v, rotated]) (rule reads)
  have px: "sobelLoops gray w h zeros ! (4 * p) = 0 \<and> sobelLoops gray w h zeros ! (4 * p + 1) = 0
          \<and> sobelLoops gray w h zeros ! (4 * p + 2) = 0 \<and> sobelLoops gray w h zeros ! (4 * p + 3) = 255"
    if "p < w * h" for p
  proof -
    have lt: "4 * p + n < 4 * (w * h)" if "n < 4" for n using that \<open>p < w * h\<close> by simp
    have md: "(4 * p + n) mod 4 = n" if "n < 4" for n using that by simp
    show ?thesis
      using o2 [OF lt [of 0]] o2 [OF lt [of 1]] o2 [OF lt [of 2]] o2 [OF lt [of 3]]
        md [of 0] md [of 1] md [of 2] md [of 3]
      by simp
  qed
  have fallback: "applySobelFilter False src w h s =
     (Inr (next_ref s),
      s\<lparr>arrays := (arrays s)(next_ref s \<mapsto> data), next_ref := next_ref s + 1\<rparr>)"
    using assms(1) ne(1)
    by (simp add: applySobelFilter_def createImageData_def Let_def zeros_def [symmetric] set)
  show ?thesis
    unfolding run fallback using ne o1 px assms(1) by simp
qed

theorem sobel_uniform_black_witness:
  "fst (applySobelFilter True 0 2 1
          \<lparr>arrays = [0 \<mapsto> [9, 9, 9, 255, 9, 9, 9, 7]], next_ref = 1\<rparr>) = Inr 2
   \<and> arrays (snd (applySobelFilter True 0 2 1
          \<lparr>arrays = [0 \<mapsto> [9, 9, 9, 255, 9, 9, 9, 7]], next_ref = 1\<rparr>)) 0
      = Some [9, 9, 9, 255, 9, 9, 9, 7]
   \<and> (\<exists>outputData. arrays (snd (applySobelFilter True 0 2 1
          \<lparr>arrays = [0 \<mapsto> [9, 9, 9, 255, 9, 9, 9, 7]], next_ref = 1\<rparr>)) 2 = Some outputData
        \<and> length outputData = 8
        \<and> outputData ! 0 = 0 \<and> outputData ! 1 = 0 \<and> outputData ! 2 = 0 \<and> outputData ! 3 = 255
        \<and> outputData ! 4 = 0 \<and> outputData ! 5 = 0 \<and> outputData ! 6 = 0 \<and> outputData ! 7 = 255)"
proof -
  define s where "s = \<lparr>arrays = [0 \<mapsto> [9, 9, 9, 255, 9, 9, 9, 7 :: byte]], next_ref = 1\<rparr>"
  have h1: "arrays s 0 = Some [9, 9, 9, 255, 9, 9, 9, 7]" by (simp add: s_def)
  have h2: "0 < next_ref s" by (simp add: s_def)
  have h3: "length [9, 9, 9, 255, 9, 9, 9, 7 :: byte] = 4 * (2 * 1)" by simp
  have h4: "\<forall>p<2 * 1. [9, 9, 9, 255, 9, 9, 9, 7 :: byte] ! (4 * p) = 9
                 \<and> [9, 9, 9, 255, 9, 9, 9, 7 :: byte] ! (4 * p + 1) = 9
                 \<and> [9, 9, 9, 255, 9, 9, 9, 7 :: byte] ! (4 * p + 2) = 9"
  proof (intro allI impI)
    fix p :: nat assume "p < 2 * 1"
    then have "p = 0 \<or> p = 1" by linarith
    then show "[9, 9, 9, 255, 9, 9, 9, 7 :: byte] ! (4 * p) = 9
                 \<and> [9, 9, 9, 255, 9, 9, 9, 7 :: byte] ! (4 * p + 1) = 9
                 \<and> [9, 9, 9, 255, 9, 9, 9, 7 :: byte] ! (4 * p + 2) = 9"
      by auto
  qed
  from sobel_uniform_black [OF h1 h2 h3 h4]
  obtain outputData where o:
    "fst (applySobelFilter True 0 2 1 s) = Inr (next_ref s + 1)"
    "arrays (snd (applySobelFilter True 0 2 1 s)) 0 = Some [9, 9, 9, 255, 9, 9, 9, 7]"
    "arrays (snd (applySobelFilter True 0 2 1 s)) (next_ref s + 1) = Some outputData"
    "length outputData = 4 * (2 * 1)"
    "\<forall>p<2 * 1. outputData ! (4 * p) = 0 \<and> outputData ! (4 * p + 1) = 0
                  \<and> outputData ! (4 * p + 2) = 0 \<and> outputData ! (4 * p + 3) = 255"
    by blast
  have n: "next_ref s + 1 = 2" by (simp add: s_def)
  have p0: "outputData ! (4 * 0) = 0 \<and> outputData ! (4 * 0 + 1) = 0
                  \<and> outputData ! (4 * 0 + 2) = 0 \<and> outputData ! (4 * 0 + 3) = 255"
    by (rule o(5) [rule_format]) simp
  have p1: "outputData ! (4 * 1) = 0 \<and> outputData ! (4 * 1 + 1) = 0
                  \<and> outputData ! (4 * 1 + 2) = 0 \<and> outputData ! (4 * 1 + 3) = 255"
    by (rule o(5) [rule_format]) simp
  have px: "outputData ! 0 = 0 \<and> outputData ! 1 = 0 \<and> outputData ! 2 = 0 \<and> outputData ! 3 = 255
        \<and> outputData ! 4 = 0 \<and> outputData ! 5 = 0 \<and> outputData ! 6 = 0 \<and> outputData ! 7 = 255"
    using p0 [unfolded mult_0_right add_0] p1 by simp
  have len: "length outputData = 8" using o(4) by simp
  show ?thesis
    unfolding s_def [symmetric] using o(1,2,3) px len unfolding n by blast
qed

text \<open>
  Without a 2D context the result for a uniform source is the copy of the source, whose
  pixels are not black.
\<close>

theorem sobel_without_context_counterexample:
  "fst (applySobelFilter False 0 2 1
          \<lparr>arrays = [0 \<mapsto> [9, 9, 9, 255, 9, 9, 9, 7]], next_ref = 1\<rparr>) = Inr 1
   \<and> arrays (snd (applySobelFilter False 0 2 1
          \<lparr>arrays = [0 \<mapsto> [9, 9, 9, 255, 9, 9, 9, 7]], next_ref = 1\<rparr>)) 1
      = Some [9, 9, 9, 255, 9, 9, 9, 7]"
  by (simp add: applySobelFilter_def createImageData_def typedArraySet_def)

end
